theory Spec2Isabelle
  imports Complex_Main "HOL-Library.Log_Nat" "HOL-Library.Multiset"
begin

section \<open>Number model\<close>

text \<open>
  The program computes with Python floats (IEEE 754 binary64) and Python complex numbers.
  Two models are used, each where it can be made precise.

  \<^item> The animation time and the animation speed are only ever added, multiplied, divided and
    compared. These scalars are modelled as the rational numbers they denote, and every
    operation rounds its exact result to the nearest number with a 53-bit significand, ties
    to even, as binary64 does. The exponent is unbounded, so the model is exact as long as
    no result overflows or is subnormal: times and time increments of stored strokes stay
    between \<open>2\<^sup>-\<^sup>4\<^sup>4\<close> and 2, speeds between 0.1 and 1, and a wheel delta is a 32-bit integer
    of the windowing library.
  \<^item> The transform computes with binary64 complex numbers: complex addition, multiplication
    and division, \<open>numpy.exp\<close> and \<open>abs\<close>, the rounding of which no standard fixes. A binary64
    complex number is modelled as the complex number it denotes, and the five operations are
    a parameter of the transform, the kernel. What the transform stores (which coefficients,
    in which order) is proved for every kernel, so also for the one of the machine. What
    the coefficients are is proved for the exact kernel, which the machine's kernel
    approximates up to rounding.
  \<^item> The reconstruction calls \<open>cos\<close>, \<open>sin\<close>, \<open>numpy.angle\<close> and \<open>abs\<close>. It is modelled in exact
    real arithmetic: the theorems about it state what the code computes up to rounding.
\<close>

type_synonym float64 = rat

definition round_even :: "rat \<Rightarrow> int" where
  "round_even y =
     (let f = \<lfloor>y\<rfloor>; r = y - of_int f
      in if r < 1 / 2 then f else if 1 / 2 < r then f + 1 else if even f then f else f + 1)"

text \<open>The binary exponent of a positive rational: the \<open>e\<close> with \<open>2\<^sup>e \<le> x < 2\<^sup>e\<^sup>+\<^sup>1\<close>.\<close>

definition ilog2 :: "rat \<Rightarrow> int" where
  "ilog2 x =
     (let (p, q) = quotient_of x; e = bitlen p - bitlen q
      in if 2 powi e \<le> x then e else e - 1)"

definition round53 :: "rat \<Rightarrow> float64" where
  "round53 x =
     (if x = 0 then 0
      else let u = 2 powi (ilog2 \<bar>x\<bar> - 52) in of_int (round_even (x / u)) * u)"

definition fadd :: "float64 \<Rightarrow> float64 \<Rightarrow> float64" where
  "fadd x y = round53 (x + y)"

definition fmul :: "float64 \<Rightarrow> float64 \<Rightarrow> float64" where
  "fmul x y = round53 (x * y)"

text \<open>The caller checks the divisor: Python raises ZeroDivisionError on a zero divisor.\<close>

definition fdiv :: "float64 \<Rightarrow> float64 \<Rightarrow> float64" where
  "fdiv x y = round53 (x / y)"

definition float_of_int :: "int \<Rightarrow> float64" where
  "float_of_int i = round53 (of_int i)"

section \<open>Constants\<close>

definition WIDTH :: int where "WIDTH = 800"
definition HEIGHT :: int where "HEIGHT = 600"
definition DEFAULT_SPEED :: float64 where "DEFAULT_SPEED = 1"
definition SPEED_INCREMENT :: float64 where "SPEED_INCREMENT = round53 (1 / 10)"

text \<open>The two float literals of the speed clamp, \<open>0.1\<close> and \<open>1.0\<close>.\<close>

definition SPEED_MIN :: float64 where "SPEED_MIN = round53 (1 / 10)"
definition SPEED_MAX :: float64 where "SPEED_MAX = 1"

section \<open>Data model\<close>

record DrawPoint =
  pos :: "int \<times> int"
  timestamp :: rat

datatype path_state = Drawing | Animating | Complete

record Path =
  raw_points :: "DrawPoint list"
  epicycles :: "(int \<times> complex) list"
  animation_points :: "(real \<times> real) list"
  display_index :: nat
  state :: path_state
  time :: float64

text \<open>\<open>Path.__init__\<close>\<close>

definition Path_init :: Path where
  "Path_init = \<lparr>raw_points = [], epicycles = [], animation_points = [], display_index = 0,
     state = Drawing, time = 0\<rparr>"

text \<open>\<open>Path.add_point\<close>; the clock reading \<open>time.time()\<close> is an input.\<close>

definition add_point :: "int \<times> int \<Rightarrow> rat \<Rightarrow> Path \<Rightarrow> Path" where
  "add_point mouse current_time p =
     p\<lparr>raw_points := raw_points p @ [\<lparr>pos = mouse, timestamp = current_time\<rparr>]\<rparr>"

section \<open>The transform: \<open>Path.calculate_fourier\<close>\<close>

text \<open>\<open>range(a, b)\<close> over the integers.\<close>

definition py_range :: "int \<Rightarrow> int \<Rightarrow> int list" where
  "py_range a b = [a..b - 1]"

text \<open>
  \<open>list.sort(key=f, reverse=True)\<close>. CPython reverses the list, sorts it stably in
  ascending key order and reverses it again, so that elements with equal keys keep their
  original order; \<open>sort_key\<close> is the stable insertion sort of the list library.
\<close>

definition py_sort_reverse :: "('a \<Rightarrow> 'k::linorder) \<Rightarrow> 'a list \<Rightarrow> 'a list" where
  "py_sort_reverse f xs = rev (sort_key f (rev xs))"

definition complex_points :: "Path \<Rightarrow> complex list" where
  "complex_points p =
     map (\<lambda>q. Complex (of_int (fst (pos q)) - of_int WIDTH / 2)
                       (of_int (snd (pos q)) - of_int HEIGHT / 2)) (raw_points p)"

text \<open>
  The complex operations of the transform: \<open>k_add\<close> and \<open>k_mul\<close> are the complex \<open>+\<close> and
  \<open>*\<close>, \<open>k_exp n k N\<close> is \<open>np.exp(-2j * pi * n * k / N)\<close>, \<open>k_div c N\<close> is \<open>c / N\<close> and \<open>k_abs\<close> is
  \<open>abs\<close>, each with the rounding of the machine. \<open>exact_kernel\<close> rounds nothing.
\<close>

record float_kernel =
  k_add :: "complex \<Rightarrow> complex \<Rightarrow> complex"
  k_mul :: "complex \<Rightarrow> complex \<Rightarrow> complex"
  k_exp :: "int \<Rightarrow> nat \<Rightarrow> nat \<Rightarrow> complex"
  k_div :: "complex \<Rightarrow> nat \<Rightarrow> complex"
  k_abs :: "complex \<Rightarrow> real"

definition exact_kernel :: float_kernel where
  "exact_kernel =
     \<lparr>k_add = (\<lambda>a b. a + b), k_mul = (\<lambda>a b. a * b),
      k_exp = (\<lambda>n k N. exp (- 2 * \<i> * of_real pi * of_int n * of_nat k / of_nat N)),
      k_div = (\<lambda>c N. c / of_nat N), k_abs = cmod\<rparr>"

text \<open>The inner loop over \<open>k\<close> and the division by \<open>N\<close> that follows it.\<close>

definition fourier_coefficient :: "float_kernel \<Rightarrow> complex list \<Rightarrow> int \<Rightarrow> complex" where
  "fourier_coefficient K cps n =
     (let N = length cps;
          c = foldl (\<lambda>c k. k_add K c (k_mul K (cps ! k) (k_exp K n k N))) 0 [0..<N]
      in k_div K c N)"

text \<open>The frequency indices the outer loop visits: \<open>range(-N//2, N//2)\<close>, where \<open>-N//2\<close>
  is the floor of \<open>-N/2\<close>.\<close>

definition frequency_indices :: "nat \<Rightarrow> int list" where
  "frequency_indices N = py_range ((- int N) div 2) (int N div 2)"

text \<open>The outer loop: one coefficient per index, appended when its magnitude exceeds 1.\<close>

definition fourier_loop :: "float_kernel \<Rightarrow> complex list \<Rightarrow> (int \<times> complex) list" where
  "fourier_loop K cps =
     foldl (\<lambda>eps n. let c = fourier_coefficient K cps n
                     in if 1 < k_abs K c then eps @ [(n, c)] else eps)
       [] (frequency_indices (length cps))"

definition calculate_fourier :: "float_kernel \<Rightarrow> Path \<Rightarrow> Path" where
  "calculate_fourier K p =
     (if length (raw_points p) < 2 then p
      else p\<lparr>epicycles :=
              py_sort_reverse (\<lambda>x. k_abs K (snd x)) (fourier_loop K (complex_points p))\<rparr>)"

text \<open>The coefficient the loop computes at every index, before the magnitude test: the
  full, unfiltered output of the transform.\<close>

definition raw_coefficients :: "float_kernel \<Rightarrow> complex list \<Rightarrow> (int \<times> complex) list" where
  "raw_coefficients K cps =
     map (\<lambda>n. (n, fourier_coefficient K cps n)) (frequency_indices (length cps))"

section \<open>The reconstruction: \<open>Path.calculate_point\<close> and \<open>Path.draw_epicycles\<close>\<close>

fun point_loop :: "(int \<times> complex) list \<Rightarrow> real \<Rightarrow> real \<times> real \<Rightarrow> real \<times> real" where
  "point_loop [] t (x, y) = (x, y)"
| "point_loop ((n, c) # es) t (x, y) =
     (let radius = cmod c; angle = 2 * pi * of_int n * t + Arg c
      in point_loop es t (x + radius * cos angle, y + radius * sin angle))"

definition calculate_point :: "Path \<Rightarrow> real \<Rightarrow> real \<times> real" where
  "calculate_point p t = point_loop (epicycles p) t (of_int WIDTH / 2, of_int HEIGHT / 2)"

text \<open>\<open>draw_epicycles\<close> walks the same chain, draws each circle and segment, and returns
  the last centre; the drawing calls do not touch the model state.\<close>

fun chain_loop :: "(int \<times> complex) list \<Rightarrow> real \<Rightarrow> real \<times> real \<Rightarrow> real \<times> real" where
  "chain_loop [] t center = center"
| "chain_loop ((n, c) # es) t center =
     (let prev_center = center; radius = cmod c; angle = 2 * pi * of_int n * t + Arg c;
          x = fst prev_center + radius * cos angle;
          y = snd prev_center + radius * sin angle
      in chain_loop es t (x, y))"

definition draw_epicycles :: "Path \<Rightarrow> real \<Rightarrow> real \<times> real" where
  "draw_epicycles p t = chain_loop (epicycles p) t (of_int WIDTH / 2, of_int HEIGHT / 2)"

section \<open>The path state machine\<close>

text \<open>
  \<open>Path.animate\<close>. The result is \<open>None\<close> where Python raises ZeroDivisionError, on an
  animating path without raw points.
\<close>

definition animate :: "float64 \<Rightarrow> Path \<Rightarrow> Path option" where
  "animate speed p =
     (if state p = Animating then
        let point = draw_epicycles p (of_rat (time p));
            p1 = p\<lparr>animation_points := animation_points p @ [point]\<rparr>
        in if length (raw_points p1) = 0 then None
           else
             let p2 = p1\<lparr>time := fadd (time p1)
                        (fmul (fdiv 1 (float_of_int (int (length (raw_points p1))))) speed)\<rparr>
             in Some (if 1 \<le> time p2 then p2\<lparr>time := 0, state := Complete\<rparr> else p2)
      else Some p)"

text \<open>\<open>Path.complete_animation\<close>\<close>

definition complete_animation :: "Path \<Rightarrow> Path" where
  "complete_animation p = (if state p = Animating then p\<lparr>state := Complete\<rparr> else p)"

text \<open>\<open>n\<close> successive calls of \<open>animate\<close> at a fixed speed.\<close>

fun animate_n :: "float64 \<Rightarrow> nat \<Rightarrow> Path \<Rightarrow> Path option" where
  "animate_n speed 0 p = Some p"
| "animate_n speed (Suc n) p =
     (case animate speed p of None \<Rightarrow> None | Some p' \<Rightarrow> animate_n speed n p')"

section \<open>The orchestrator: \<open>FourierDrawing\<close> and the main loop\<close>

text \<open>
  Every Path object is held by one list at a time, except inside a single handler, so the
  lists hold Path values. \<open>remaining_paths\<close> is created by the replay handler and read
  only while \<open>animating_all\<close> is set, which only that handler sets; it starts empty here.
\<close>

record FourierDrawing =
  paths :: "Path list"
  current_path :: "Path option"
  show_help :: bool
  animating_all :: bool
  current_animation_index :: nat
  animation_speed :: float64
  completed_paths :: "Path list"
  show_original :: bool
  remaining_paths :: "Path list"

definition FourierDrawing_init :: FourierDrawing where
  "FourierDrawing_init = \<lparr>paths = [], current_path = None, show_help = False,
     animating_all = False, current_animation_index = 0, animation_speed = DEFAULT_SPEED,
     completed_paths = [], show_original = False, remaining_paths = []\<rparr>"

definition start_new_path :: "bool \<Rightarrow> FourierDrawing \<Rightarrow> FourierDrawing" where
  "start_new_path clear_existing d =
     (let d1 = (if clear_existing
                then d\<lparr>paths := [], completed_paths := [], animating_all := False\<rparr> else d)
      in d1\<lparr>current_path := Some Path_init\<rparr>)"

definition complete_all_animations :: "FourierDrawing \<Rightarrow> FourierDrawing" where
  "complete_all_animations d =
     (let d1 = d\<lparr>paths := map complete_animation (paths d)\<rparr>
      in if animating_all d1
         then d1\<lparr>paths := paths d1 @ map complete_animation (remaining_paths d1),
                 remaining_paths := [], animating_all := False\<rparr>
         else d1)"

definition finish_current_path :: "float_kernel \<Rightarrow> FourierDrawing \<Rightarrow> FourierDrawing" where
  "finish_current_path K d =
     (case current_path d of
        Some cp \<Rightarrow>
          if 1 < length (raw_points cp)
          then d\<lparr>paths := paths d @ [(calculate_fourier K cp)\<lparr>state := Animating\<rparr>],
                 current_path := None\<rparr>
          else d\<lparr>current_path := None\<rparr>
      | None \<Rightarrow> d\<lparr>current_path := None\<rparr>)"

text \<open>The mouse wheel handler; \<open>y\<close> is the wheel delta of the event.\<close>

definition adjust_speed :: "int \<Rightarrow> FourierDrawing \<Rightarrow> FourierDrawing" where
  "adjust_speed y d =
     d\<lparr>animation_speed :=
         min SPEED_MAX (max SPEED_MIN
           (fadd (animation_speed d) (fmul (float_of_int y) SPEED_INCREMENT)))\<rparr>"

fun adjust_speeds :: "int list \<Rightarrow> FourierDrawing \<Rightarrow> FourierDrawing" where
  "adjust_speeds [] d = d"
| "adjust_speeds (y # ys) d = adjust_speeds ys (adjust_speed y d)"

text \<open>The space key handler (replay all).\<close>

definition replay_all :: "FourierDrawing \<Rightarrow> FourierDrawing" where
  "replay_all d =
     (case paths d of
        [] \<Rightarrow> d
      | first # rest \<Rightarrow>
          d\<lparr>paths := [first\<lparr>time := 0, animation_points := [], state := Animating\<rparr>],
            completed_paths := [], animating_all := True, current_animation_index := 0,
            remaining_paths := rest\<rparr>)"

text \<open>The recording step of the loop body; \<open>drawing_active\<close> is a local of \<open>main\<close>, the
  mouse position and the clock are inputs.\<close>

definition record_step :: "bool \<times> (int \<times> int) \<times> rat \<Rightarrow> FourierDrawing \<Rightarrow> FourierDrawing" where
  "record_step inp d =
     (case inp of (drawing_active, mouse, now) \<Rightarrow>
        (case current_path d of
           Some cp \<Rightarrow> if drawing_active then d\<lparr>current_path := Some (add_point mouse now cp)\<rparr>
                      else d
         | None \<Rightarrow> d))"

text \<open>The loop over \<open>drawing.paths\<close> that animates every animating path; a completed path
  is only drawn.\<close>

fun animate_paths :: "float64 \<Rightarrow> Path list \<Rightarrow> Path list option" where
  "animate_paths speed [] = Some []"
| "animate_paths speed (p # ps) =
     (case (if state p = Animating then animate speed p else Some p) of
        None \<Rightarrow> None
      | Some p' \<Rightarrow> map_option ((#) p') (animate_paths speed ps))"

text \<open>The block "Handle sequential animation".\<close>

definition handle_sequential :: "FourierDrawing \<Rightarrow> FourierDrawing" where
  "handle_sequential d =
     (if animating_all d \<and> paths d \<noteq> [] then
        let current = hd (paths d)
        in if state current = Complete then
             let d1 = d\<lparr>completed_paths := completed_paths d @ [current]\<rparr>
             in (case remaining_paths d1 of
                   next_path # rest \<Rightarrow>
                     d1\<lparr>remaining_paths := rest,
                        paths := [next_path\<lparr>time := 0, animation_points := [],
                                    state := Animating\<rparr>]\<rparr>
                 | [] \<Rightarrow>
                     d1\<lparr>animating_all := False, paths := completed_paths d1,
                        completed_paths := []\<rparr>)
           else d
      else d)"

text \<open>One pass of the loop body after the events: record, animate, sequence.\<close>

definition frame :: "bool \<times> (int \<times> int) \<times> rat \<Rightarrow> FourierDrawing \<Rightarrow> FourierDrawing option" where
  "frame inp d =
     (let d1 = record_step inp d
      in case animate_paths (animation_speed d1) (paths d1) of
           None \<Rightarrow> None
         | Some ps \<Rightarrow> Some (handle_sequential (d1\<lparr>paths := ps\<rparr>)))"

text \<open>\<open>n\<close> successive frames without events; \<open>inp i\<close> is the input of frame \<open>i\<close>.\<close>

fun frames :: "(nat \<Rightarrow> bool \<times> (int \<times> int) \<times> rat) \<Rightarrow> nat \<Rightarrow> FourierDrawing \<Rightarrow> FourierDrawing option" where
  "frames inp 0 d = Some d"
| "frames inp (Suc n) d =
     (case frame (inp 0) d of None \<Rightarrow> None | Some d' \<Rightarrow> frames (\<lambda>i. inp (Suc i)) n d')"

section \<open>Auxiliary notions\<close>

text \<open>The time increment of one frame, \<open>(1.0 / len(self.raw_points)) * speed\<close>.\<close>

definition increment :: "float64 \<Rightarrow> nat \<Rightarrow> float64" where
  "increment speed N = fmul (fdiv 1 (float_of_int (int N))) speed"

text \<open>The time stays below 1 during the next \<open>n\<close> frames, and the time after \<open>n\<close> frames.\<close>

fun stays_below :: "float64 \<Rightarrow> nat \<Rightarrow> float64 \<Rightarrow> bool" where
  "stays_below inc 0 t = True"
| "stays_below inc (Suc n) t = (fadd t inc < 1 \<and> stays_below inc n (fadd t inc))"

fun time_iter :: "float64 \<Rightarrow> nat \<Rightarrow> float64 \<Rightarrow> float64" where
  "time_iter inc 0 t = t"
| "time_iter inc (Suc n) t = time_iter inc n (fadd t inc)"

text \<open>A stroke of ten points as \<open>finish_current_path\<close> stores it.\<close>

definition ten_point_path :: Path where
  "ten_point_path =
     (calculate_fourier exact_kernel (Path_init\<lparr>raw_points :=
        map (\<lambda>i. \<lparr>pos = (350 + 10 * int i, 300), timestamp = of_nat i / 60\<rparr>) [0..<10]\<rparr>))
     \<lparr>state := Animating\<rparr>"

text \<open>The paths that \<open>complete_all_animations\<close> visits.\<close>

definition active_paths :: "FourierDrawing \<Rightarrow> Path list" where
  "active_paths d = paths d @ (if animating_all d then remaining_paths d else [])"

text \<open>A recording of two points, about to end.\<close>

definition two_point_recording :: FourierDrawing where
  "two_point_recording = FourierDrawing_init\<lparr>current_path :=
     Some (add_point (390, 300) 1 (add_point (410, 300) 0 Path_init))\<rparr>"

text \<open>A stroke of three points.\<close>

definition three_point_path :: Path where
  "three_point_path = Path_init\<lparr>raw_points :=
     [\<lparr>pos = (410, 300), timestamp = 0\<rparr>, \<lparr>pos = (400, 310), timestamp = 1\<rparr>,
      \<lparr>pos = (390, 300), timestamp = 2\<rparr>]\<rparr>"

text \<open>What the replay handler and the sequencer do to a path before it animates again.\<close>

definition restart :: "Path \<Rightarrow> Path" where
  "restart p = p\<lparr>time := 0, animation_points := [], state := Animating\<rparr>"

text \<open>\<open>p\<close> is the path \<open>q\<close> after a frame, computed at speed \<open>s\<close>.\<close>

definition last_frame :: "float64 \<Rightarrow> Path \<Rightarrow> Path \<Rightarrow> bool" where
  "last_frame s q p = (state q = Animating \<and> animate s q = Some p)"

text \<open>\<open>q\<close> is the path \<open>p\<close> replayed to its end: restarted and animated until complete. And \<open>q\<close>
  is \<open>p\<close> in the course of its replay: restarted, animated some frames and not complete yet.\<close>

definition replayed :: "float64 \<Rightarrow> Path \<Rightarrow> Path \<Rightarrow> bool" where
  "replayed s p q = (\<exists>n. animate_n s n (restart p) = Some q \<and> state q = Complete)"

definition in_replay :: "float64 \<Rightarrow> Path \<Rightarrow> Path \<Rightarrow> bool" where
  "in_replay s p q = (\<exists>n. animate_n s n (restart p) = Some q \<and> state q = Animating)"

text \<open>All paths the orchestrator holds, finished ones first, queued ones last, their states,
  and how many of them are animating.\<close>

definition held_paths :: "FourierDrawing \<Rightarrow> Path list" where
  "held_paths d = completed_paths d @ paths d @ remaining_paths d"

definition held_states :: "FourierDrawing \<Rightarrow> path_state list" where
  "held_states d = map state (held_paths d)"

definition animating_count :: "FourierDrawing \<Rightarrow> nat" where
  "animating_count d = length (filter (\<lambda>p. state p = Animating) (held_paths d))"

text \<open>
  A replay of \<open>orig\<close> is under way, at path number \<open>i\<close>: the paths before it have been
  replayed to their end and stand in \<open>completed_paths\<close>, path \<open>i\<close> is in the course of its
  replay and is the one path of the path collection, and the paths after it wait in the
  queue as they were.
\<close>

definition replaying :: "Path list \<Rightarrow> FourierDrawing \<Rightarrow> bool" where
  "replaying orig d =
     (animating_all d
      \<and> (\<exists>i. i < length orig
            \<and> list_all2 (replayed (animation_speed d)) (take i orig) (completed_paths d)
            \<and> list_all2 (in_replay (animation_speed d)) [orig ! i] (paths d)
            \<and> remaining_paths d = drop (Suc i) orig))"

text \<open>The replay of \<open>orig\<close> is over: the path collection holds every path of \<open>orig\<close>,
  replayed to its end, in the original order, and the two replay lists are empty.\<close>

definition replay_done :: "Path list \<Rightarrow> FourierDrawing \<Rightarrow> bool" where
  "replay_done orig d =
     (\<not> animating_all d \<and> list_all2 (replayed (animation_speed d)) orig (paths d)
      \<and> completed_paths d = [] \<and> remaining_paths d = [])"

text \<open>The size of a stored stroke: at least the two points \<open>finish_current_path\<close> asks
  for, and at most \<open>2\<^sup>4\<^sup>0\<close> points (far more than a machine can hold).\<close>

definition size_ok :: "Path \<Rightarrow> bool" where
  "size_ok p = (2 \<le> length (raw_points p) \<and> length (raw_points p) \<le> 2 ^ 40)"

text \<open>The invariant of the replay and the quantity that every frame decreases by at
  least one.\<close>

definition replay_inv :: "Path list \<Rightarrow> FourierDrawing \<Rightarrow> bool" where
  "replay_inv orig d =
     (replaying orig d \<and> 0 \<le> time (hd (paths d)) \<and> time (hd (paths d)) < 1
      \<and> list_all size_ok orig \<and> list_all (\<lambda>p. state p = Complete) orig
      \<and> SPEED_MIN \<le> animation_speed d \<and> animation_speed d \<le> SPEED_MAX)"

definition replay_measure :: "FourierDrawing \<Rightarrow> rat" where
  "replay_measure d =
     (1 - time (hd (paths d))) * 2 ^ 45 + of_nat (length (remaining_paths d)) * (2 ^ 45 + 1)"

text \<open>Frames in which the mouse does nothing.\<close>

definition no_input :: "nat \<Rightarrow> bool \<times> (int \<times> int) \<times> rat" where
  "no_input i = (False, (0, 0), 0)"

text \<open>A stroke of two points.\<close>

definition stroke :: "int \<times> int \<Rightarrow> int \<times> int \<Rightarrow> Path" where
  "stroke a b = add_point b 1 (add_point a 0 Path_init)"

text \<open>Three completed strokes of two points each.\<close>

definition completed_stroke :: "int \<times> int \<Rightarrow> int \<times> int \<Rightarrow> Path" where
  "completed_stroke a b =
     (calculate_fourier exact_kernel (add_point b 1 (add_point a 0 Path_init)))
     \<lparr>state := Complete\<rparr>"

definition three_completed :: FourierDrawing where
  "three_completed = FourierDrawing_init\<lparr>paths :=
     [completed_stroke (410, 300) (390, 300), completed_stroke (400, 310) (400, 290),
      completed_stroke (420, 320) (380, 280)]\<rparr>"

text \<open>One completed stroke.\<close>

definition one_completed :: FourierDrawing where
  "one_completed = FourierDrawing_init\<lparr>paths := [completed_stroke (410, 300) (390, 300)]\<rparr>"

text \<open>The replay of the three strokes after its first frame.\<close>

definition mid_replay :: FourierDrawing where
  "mid_replay = (replay_all three_completed)\<lparr>paths :=
     [(restart (completed_stroke (410, 300) (390, 300)))
        \<lparr>animation_points := [draw_epicycles (restart (completed_stroke (410, 300) (390, 300))) 0],
         time := 1 / 2\<rparr>]\<rparr>"

section \<open>The reconstruction is a sum over the coefficient list\<close>

lemma point_loop_sum:
  "point_loop es t (x, y) =
     (x + (\<Sum>(n, c)\<leftarrow>es. cmod c * cos (2 * pi * of_int n * t + Arg c)),
      y + (\<Sum>(n, c)\<leftarrow>es. cmod c * sin (2 * pi * of_int n * t + Arg c)))"
  by (induction es t "(x, y)" arbitrary: x y rule: point_loop.induct)
     (simp_all add: Let_def add.assoc)

lemma chain_loop_point_loop: "chain_loop es t (x, y) = point_loop es t (x, y)"
  by (induction es t "(x, y)" arbitrary: x y rule: point_loop.induct)
     (simp_all add: Let_def)

lemma draw_epicycles_calculate_point: "draw_epicycles p t = calculate_point p t"
  by (simp add: draw_epicycles_def calculate_point_def chain_loop_point_loop)

text \<open>
  Claim C3. For every coefficient list and time \<open>t\<close>, \<open>calculate_point\<close> starts at the canvas
  centre \<open>(WIDTH/2, HEIGHT/2)\<close> and adds, for each coefficient \<open>(n, c)\<close> in list order,
  \<open>(|c| cos (2\<pi>nt + arg c), |c| sin (2\<pi>nt + arg c))\<close>; with no coefficient the result is the
  canvas centre for every \<open>t\<close>; and the result depends on the coefficient list and \<open>t\<close> only,
  not on any other field of the path.
\<close>

theorem calculate_point_sum:
  "calculate_point p t =
     (of_int WIDTH / 2 + (\<Sum>(n, c)\<leftarrow>epicycles p. cmod c * cos (2 * pi * of_int n * t + Arg c)),
      of_int HEIGHT / 2 + (\<Sum>(n, c)\<leftarrow>epicycles p. cmod c * sin (2 * pi * of_int n * t + Arg c)))
   \<and> calculate_point (p\<lparr>epicycles := []\<rparr>) t = (of_int WIDTH / 2, of_int HEIGHT / 2)
   \<and> (epicycles p = epicycles q \<longrightarrow> calculate_point p t = calculate_point q t)"
  by (simp add: calculate_point_def point_loop_sum)

theorem calculate_point_sum_witness:
  "epicycles Path_init = epicycles (Path_init\<lparr>time := 1 / 2\<rparr>)
   \<and> calculate_point Path_init (1 / 4) = calculate_point (Path_init\<lparr>time := 1 / 2\<rparr>) (1 / 4)
   \<and> calculate_point Path_init (1 / 4) = (400, 300)"
  using calculate_point_sum [of Path_init "1 / 4" "Path_init\<lparr>time := 1 / 2\<rparr>"]
  by (auto simp add: Path_init_def WIDTH_def HEIGHT_def)

section \<open>Skipping to the end of one animation\<close>

text \<open>
  Claim C10. \<open>complete_animation\<close> changes the state tag only: the raw points, the
  coefficients, the animated trace, the animation time (and the display index) are those of
  the path it is applied to; an animating path becomes complete, and a path in any other
  state is returned as it is.
\<close>

theorem complete_animation_frame:
  "raw_points (complete_animation p) = raw_points p
   \<and> epicycles (complete_animation p) = epicycles p
   \<and> animation_points (complete_animation p) = animation_points p
   \<and> time (complete_animation p) = time p
   \<and> display_index (complete_animation p) = display_index p
   \<and> (state p = Animating \<longrightarrow> state (complete_animation p) = Complete)
   \<and> (state p \<noteq> Animating \<longrightarrow> complete_animation p = p)"
  by (simp add: complete_animation_def)

theorem complete_animation_frame_witness:
  "state (Path_init\<lparr>state := Animating\<rparr>) = Animating
   \<and> state (complete_animation (Path_init\<lparr>state := Animating\<rparr>)) = Complete
   \<and> state Path_init \<noteq> Animating
   \<and> complete_animation Path_init = Path_init"
  using complete_animation_frame [of "Path_init\<lparr>state := Animating\<rparr>"]
    complete_animation_frame [of Path_init]
  by (simp add: Path_init_def)

section \<open>The speed clamp\<close>

lemma SPEED_MIN_le_MAX: "SPEED_MIN \<le> SPEED_MAX"
  unfolding SPEED_MIN_def SPEED_MAX_def by code_simp

lemma adjust_speed_range:
  "SPEED_MIN \<le> animation_speed (adjust_speed y d)
   \<and> animation_speed (adjust_speed y d) \<le> SPEED_MAX"
  using SPEED_MIN_le_MAX by (simp add: adjust_speed_def)

lemma adjust_speeds_range:
  "SPEED_MIN \<le> animation_speed d \<and> animation_speed d \<le> SPEED_MAX \<Longrightarrow>
   SPEED_MIN \<le> animation_speed (adjust_speeds ys d)
   \<and> animation_speed (adjust_speeds ys d) \<le> SPEED_MAX"
  by (induction ys arbitrary: d) (simp_all add: adjust_speed_range)

lemma adjust_speed_clamp:
  "animation_speed (adjust_speed y d) =
     (let r = fadd (animation_speed d) (fmul (float_of_int y) SPEED_INCREMENT)
      in if r < SPEED_MIN then SPEED_MIN else if SPEED_MAX < r then SPEED_MAX else r)"
  using SPEED_MIN_le_MAX by (auto simp add: adjust_speed_def Let_def min_def max_def)

lemma adjust_speeds_snoc: "adjust_speeds (ys @ [y]) d = adjust_speed y (adjust_speeds ys d)"
  by (induction ys arbitrary: d) simp_all

lemma speed_examples:
  "animation_speed (adjust_speed (- 1) FourierDrawing_init) = 8106479329266893 / 9007199254740992"
  "animation_speed (adjust_speed 1 FourierDrawing_init) = 1"
  "animation_speed (adjust_speed (- 20) FourierDrawing_init) = 3602879701896397 / 36028797018963968"
  by code_simp+

text \<open>
  Claim C9. Starting from the default speed, after any sequence of wheel events (each asking
  for a change of \<open>y\<close> increments of 0.1, \<open>y\<close> any integer) the animation speed lies between
  the binary64 numbers 0.1 and 1.0; as every prefix of a sequence of requests is such a
  sequence, this is the state after each request. Every request is applied, one after the
  other, and changes the speed only: the new speed is the binary64 sum of the old speed and
  \<open>y\<close> times 0.1 where that lies between 0.1 and 1.0, and the nearer of the two bounds where
  it does not. So one notch down from 1.0 gives 0.9, one notch up stays at 1.0 and twenty
  notches down give 0.1.
\<close>

theorem speed_stays_clamped:
  "SPEED_MIN \<le> animation_speed (adjust_speeds ys FourierDrawing_init)
   \<and> animation_speed (adjust_speeds ys FourierDrawing_init) \<le> SPEED_MAX
   \<and> SPEED_MIN = 3602879701896397 / 36028797018963968 \<and> SPEED_MAX = 1
   \<and> adjust_speeds (ys @ [y]) d = adjust_speed y (adjust_speeds ys d)
   \<and> adjust_speed y d = d\<lparr>animation_speed := animation_speed (adjust_speed y d)\<rparr>
   \<and> animation_speed (adjust_speed y d) =
       (let r = fadd (animation_speed d) (fmul (float_of_int y) SPEED_INCREMENT)
        in if r < SPEED_MIN then SPEED_MIN else if SPEED_MAX < r then SPEED_MAX else r)
   \<and> animation_speed (adjust_speed (- 1) FourierDrawing_init)
       = 8106479329266893 / 9007199254740992
   \<and> animation_speed (adjust_speed 1 FourierDrawing_init) = 1
   \<and> animation_speed (adjust_speed (- 20) FourierDrawing_init)
       = 3602879701896397 / 36028797018963968"
proof -
  have "SPEED_MIN = 3602879701896397 / 36028797018963968"
    unfolding SPEED_MIN_def by code_simp
  moreover have "SPEED_MIN \<le> animation_speed FourierDrawing_init
      \<and> animation_speed FourierDrawing_init \<le> SPEED_MAX"
    using SPEED_MIN_le_MAX by (simp add: FourierDrawing_init_def DEFAULT_SPEED_def SPEED_MAX_def)
  moreover have "adjust_speed y d = d\<lparr>animation_speed := animation_speed (adjust_speed y d)\<rparr>"
    by (simp add: adjust_speed_def)
  ultimately show ?thesis
    using adjust_speeds_range [of FourierDrawing_init ys] adjust_speed_clamp [of y d]
      adjust_speeds_snoc [of ys y d] speed_examples
    by (simp only: SPEED_MAX_def)
qed

section \<open>The end of a recording\<close>

text \<open>
  Claim C8. When a recording ends with fewer than two points, \<open>finish_current_path\<close> only
  clears the current path: the path collection and every other field are unchanged and the
  transform is not run. With two or more points the path, transformed and set to animating,
  is appended to the path collection.
\<close>

theorem finish_current_path_cases:
  "(current_path d = Some cp \<and> length (raw_points cp) < 2 \<longrightarrow>
      finish_current_path K d = d\<lparr>current_path := None\<rparr>)
   \<and> (current_path d = Some cp \<and> 2 \<le> length (raw_points cp) \<longrightarrow>
      (\<exists>q. finish_current_path K d = d\<lparr>paths := paths d @ [q], current_path := None\<rparr>
           \<and> q = (calculate_fourier K cp)\<lparr>state := Animating\<rparr>
           \<and> state q = Animating \<and> raw_points q = raw_points cp))"
  by (auto simp add: finish_current_path_def calculate_fourier_def)

theorem finish_current_path_cases_witness:
  "current_path (FourierDrawing_init\<lparr>current_path := Some (add_point (410, 300) 0 Path_init)\<rparr>)
     = Some (add_point (410, 300) 0 Path_init)
   \<and> length (raw_points (add_point (410, 300) 0 Path_init)) < 2
   \<and> finish_current_path exact_kernel
       (FourierDrawing_init\<lparr>current_path := Some (add_point (410, 300) 0 Path_init)\<rparr>)
     = FourierDrawing_init
   \<and> current_path (FourierDrawing_init\<lparr>current_path :=
         Some (add_point (390, 300) 1 (add_point (410, 300) 0 Path_init))\<rparr>)
     = Some (add_point (390, 300) 1 (add_point (410, 300) 0 Path_init))
   \<and> 2 \<le> length (raw_points (add_point (390, 300) 1 (add_point (410, 300) 0 Path_init)))
   \<and> map state (paths (finish_current_path exact_kernel (FourierDrawing_init\<lparr>current_path :=
         Some (add_point (390, 300) 1 (add_point (410, 300) 0 Path_init))\<rparr>))) = [Animating]"
  using finish_current_path_cases
      [of "FourierDrawing_init\<lparr>current_path := Some (add_point (410, 300) 0 Path_init)\<rparr>"
          "add_point (410, 300) 0 Path_init" exact_kernel]
    finish_current_path_cases
      [of "FourierDrawing_init\<lparr>current_path :=
             Some (add_point (390, 300) 1 (add_point (410, 300) 0 Path_init))\<rparr>"
          "add_point (390, 300) 1 (add_point (410, 300) 0 Path_init)" exact_kernel]
  by (auto simp add: FourierDrawing_init_def add_point_def Path_init_def)

section \<open>The animation of one path\<close>

lemma animate_running:
  assumes "state p = Animating" "raw_points p \<noteq> []"
  shows "animate speed p =
     Some (if 1 \<le> fadd (time p) (increment speed (length (raw_points p)))
           then p\<lparr>animation_points := animation_points p @ [draw_epicycles p (of_rat (time p))],
                  time := 0, state := Complete\<rparr>
           else p\<lparr>animation_points := animation_points p @ [draw_epicycles p (of_rat (time p))],
                  time := fadd (time p) (increment speed (length (raw_points p)))\<rparr>)"
  using assms by (simp add: animate_def Let_def increment_def)

lemma animate_n_add:
  "animate_n speed (m + n) p =
     (case animate_n speed m p of None \<Rightarrow> None | Some p' \<Rightarrow> animate_n speed n p')"
  by (induction m arbitrary: p) (simp_all split: option.splits)

lemma animate_n_running:
  assumes "state p = Animating" "raw_points p \<noteq> []"
    and "stays_below (increment speed (length (raw_points p))) n (time p)"
  shows "\<exists>p'. animate_n speed n p = Some p' \<and> state p' = Animating
           \<and> time p' = time_iter (increment speed (length (raw_points p))) n (time p)
           \<and> raw_points p' = raw_points p \<and> epicycles p' = epicycles p
           \<and> length (animation_points p') = length (animation_points p) + n"
  using assms
proof (induction n arbitrary: p)
  case 0
  then show ?case by simp
next
  case (Suc n)
  let ?inc = "increment speed (length (raw_points p))"
  let ?q = "p\<lparr>animation_points := animation_points p @ [draw_epicycles p (of_rat (time p))],
              time := fadd (time p) ?inc\<rparr>"
  from Suc.prems have lt: "fadd (time p) ?inc < 1"
    and rest: "stays_below ?inc n (fadd (time p) ?inc)" by simp_all
  have step: "animate speed p = Some ?q"
    using animate_running [OF Suc.prems(1,2), of speed] lt by simp
  have "\<exists>p'. animate_n speed n ?q = Some p' \<and> state p' = Animating
           \<and> time p' = time_iter (increment speed (length (raw_points ?q))) n (time ?q)
           \<and> raw_points p' = raw_points ?q \<and> epicycles p' = epicycles ?q
           \<and> length (animation_points p') = length (animation_points ?q) + n"
    using Suc.prems(1,2) rest by (intro Suc.IH) simp_all
  then show ?case using step by auto
qed

lemma ten_point_path_fields:
  "state ten_point_path = Animating" "length (raw_points ten_point_path) = 10"
  "time ten_point_path = 0" "animation_points ten_point_path = []"
  by (simp_all add: ten_point_path_def calculate_fourier_def Path_init_def)

lemma increment_ten: "increment 1 10 = 3602879701896397 / 36028797018963968"
  by code_simp

lemma ten_steps:
  "fadd 0 (3602879701896397 / 36028797018963968) = 3602879701896397 / 36028797018963968"
  "fadd (3602879701896397 / 36028797018963968) (3602879701896397 / 36028797018963968) = 3602879701896397 / 18014398509481984"
  "fadd (3602879701896397 / 18014398509481984) (3602879701896397 / 36028797018963968) = 1351079888211149 / 4503599627370496"
  "fadd (1351079888211149 / 4503599627370496) (3602879701896397 / 36028797018963968) = 3602879701896397 / 9007199254740992"
  "fadd (3602879701896397 / 9007199254740992) (3602879701896397 / 36028797018963968) = 1 / 2"
  "fadd (1 / 2) (3602879701896397 / 36028797018963968) = 5404319552844595 / 9007199254740992"
  "fadd (5404319552844595 / 9007199254740992) (3602879701896397 / 36028797018963968) = 3152519739159347 / 4503599627370496"
  "fadd (3152519739159347 / 4503599627370496) (3602879701896397 / 36028797018963968) = 7205759403792793 / 9007199254740992"
  "fadd (7205759403792793 / 9007199254740992) (3602879701896397 / 36028797018963968) = 2026619832316723 / 2251799813685248"
  "fadd (2026619832316723 / 2251799813685248) (3602879701896397 / 36028797018963968) = 9007199254740991 / 9007199254740992"
  by code_simp+

lemma eleventh_step:
  "fadd (9007199254740991 / 9007199254740992) (3602879701896397 / 36028797018963968) = 4953959590107545 / 4503599627370496"
  by code_simp

lemma ten_steps_below: "stays_below (3602879701896397 / 36028797018963968) 10 0"
  by (simp add: eval_nat_numeral ten_steps)

lemma ten_steps_time:
  "time_iter (3602879701896397 / 36028797018963968) 10 0 = 9007199254740991 / 9007199254740992"
  by (simp add: eval_nat_numeral ten_steps)

text \<open>
  Claim C5, at the input where it fails. A path of ten raw points animated at speed 1.0 is
  still animating after ten frames: the binary64 sum of ten increments of 0.1 is
  \<open>1 - 2\<^sup>-\<^sup>5\<^sup>3\<close>, below 1. It completes on the eleventh frame, with eleven trace points.
\<close>

theorem ten_points_take_eleven_frames:
  "(\<exists>p. animate_n 1 10 ten_point_path = Some p \<and> state p = Animating
        \<and> time p = 9007199254740991 / 9007199254740992 \<and> length (animation_points p) = 10)
   \<and> (\<exists>p. animate_n 1 11 ten_point_path = Some p \<and> state p = Complete
        \<and> length (animation_points p) = 11)"
proof -
  have ne: "raw_points ten_point_path \<noteq> []"
    using ten_point_path_fields(2) by auto
  obtain p where p: "animate_n 1 10 ten_point_path = Some p" "state p = Animating"
      "time p = 9007199254740991 / 9007199254740992" "raw_points p = raw_points ten_point_path"
      "length (animation_points p) = 10"
    using animate_n_running [of ten_point_path 1 10] ne ten_steps_below ten_steps_time
    by (auto simp add: ten_point_path_fields increment_ten)
  have "raw_points p \<noteq> []" using p(4) ne by simp
  from animate_running [OF p(2) this, of 1]
  obtain q where q: "animate 1 p = Some q" "state q = Complete" "length (animation_points q) = 11"
    by (simp add: p ten_point_path_fields increment_ten eleventh_step)
  have "animate_n 1 11 ten_point_path = Some q"
    using animate_n_add [of 1 10 1 ten_point_path] p(1) q(1) by simp
  with p q show ?thesis by blast
qed

section \<open>Skipping to the end of all animations\<close>

lemma map_complete_animation:
  "\<forall>p \<in> set ps. state p \<noteq> Drawing \<Longrightarrow>
   map complete_animation ps = map (\<lambda>p. p\<lparr>state := Complete\<rparr>) ps"
proof (induction ps)
  case Nil
  then show ?case by simp
next
  case (Cons p ps)
  have "complete_animation p = p\<lparr>state := Complete\<rparr>"
    using Cons.prems by (cases "state p") (simp_all add: complete_animation_def)
  with Cons show ?case by simp
qed

lemma increment_two: "increment 1 2 = 1 / 2"
  by code_simp

lemma half_steps: "fadd 0 (1 / 2) = 1 / 2" "fadd (1 / 2) (1 / 2) = 1"
  by code_simp+

lemma completed_stroke_fields:
  "length (raw_points (completed_stroke a b)) = 2" "state (completed_stroke a b) = Complete"
  by (simp_all add: completed_stroke_def calculate_fourier_def add_point_def Path_init_def)

lemma restart_fields:
  "state (restart p) = Animating" "time (restart p) = 0" "animation_points (restart p) = []"
  "raw_points (restart p) = raw_points p" "epicycles (restart p) = epicycles p"
  by (simp_all add: restart_def)

lemma map_complete_animation_all:
  "list_all (\<lambda>p. state p \<noteq> Drawing) ps \<Longrightarrow>
   map complete_animation ps = map (\<lambda>p. p\<lparr>state := Complete\<rparr>) ps"
  using map_complete_animation [of ps] by (simp add: list_all_iff)

text \<open>
  Claim C7, amended. In a state whose active paths (the path collection and, during a replay,
  the replay queue) are animating or complete, \<open>complete_all_animations\<close> sets every active
  path to complete within the same call, moves the queued paths behind the others and ends
  the replay, and it leaves every animated trace as it is: no point is computed. So every
  active path that comes out of a frame (it is the result of \<open>animate\<close> on an animating
  path \<open>q\<close>) holds a non-empty trace whose last element is the composite point computed in
  that frame, the point of \<open>q\<close> at the time of \<open>q\<close>. A path that is skipped before its first
  frame keeps the trace it had, which is empty after a recording or a restart.
\<close>

theorem complete_all_animations_keeps_traces:
  assumes "list_all (\<lambda>p. state p \<noteq> Drawing) (active_paths d)"
  shows "paths (complete_all_animations d) = map (\<lambda>p. p\<lparr>state := Complete\<rparr>) (active_paths d)
    \<and> map animation_points (paths (complete_all_animations d)) = map animation_points (active_paths d)
    \<and> list_all (\<lambda>p. state p = Complete) (paths (complete_all_animations d))
    \<and> \<not> animating_all (complete_all_animations d)
    \<and> (if animating_all d then remaining_paths (complete_all_animations d) = []
        else remaining_paths (complete_all_animations d) = remaining_paths d)
    \<and> completed_paths (complete_all_animations d) = completed_paths d
    \<and> (\<forall>i q s. i < length (active_paths d) \<and> last_frame s q (active_paths d ! i) \<longrightarrow>
          animation_points (paths (complete_all_animations d) ! i) \<noteq> []
          \<and> last (animation_points (paths (complete_all_animations d) ! i))
              = calculate_point q (of_rat (time q)))"
proof -
  have 1: "map complete_animation (paths d) = map (\<lambda>p. p\<lparr>state := Complete\<rparr>) (paths d)"
    using assms by (intro map_complete_animation_all) (simp add: active_paths_def)
  have 2: "animating_all d \<Longrightarrow>
    map complete_animation (remaining_paths d) = map (\<lambda>p. p\<lparr>state := Complete\<rparr>) (remaining_paths d)"
    using assms by (intro map_complete_animation_all) (simp add: active_paths_def)
  have 3: "paths (complete_all_animations d) = map (\<lambda>p. p\<lparr>state := Complete\<rparr>) (active_paths d)"
    using 1 2 by (simp add: complete_all_animations_def active_paths_def Let_def)
  have 4: "animation_points (paths (complete_all_animations d) ! i) \<noteq> []
          \<and> last (animation_points (paths (complete_all_animations d) ! i))
              = calculate_point q (of_rat (time q))"
    if i: "i < length (active_paths d)" and lf: "last_frame s q (active_paths d ! i)" for i q s
  proof -
    from lf have st: "state q = Animating" and an: "animate s q = Some (active_paths d ! i)"
      by (simp_all add: last_frame_def)
    have "raw_points q \<noteq> []"
      using an st by (auto simp add: animate_def Let_def split: if_splits)
    from animate_running [OF st this, of s] an
    have "animation_points (active_paths d ! i)
        = animation_points q @ [draw_epicycles q (of_rat (time q))]"
      by (auto split: if_splits)
    then show ?thesis
      using i by (simp add: 3 draw_epicycles_calculate_point)
  qed
  have 5: "\<forall>i q s. i < length (active_paths d) \<and> last_frame s q (active_paths d ! i) \<longrightarrow>
          animation_points (paths (complete_all_animations d) ! i) \<noteq> []
          \<and> last (animation_points (paths (complete_all_animations d) ! i))
              = calculate_point q (of_rat (time q))"
    using 4 by blast
  have 6: "map animation_points (paths (complete_all_animations d)) = map animation_points (active_paths d)
    \<and> list_all (\<lambda>p. state p = Complete) (paths (complete_all_animations d))"
    unfolding 3 by (simp add: list_all_iff comp_def)
  have 7: "\<not> animating_all (complete_all_animations d)
    \<and> (if animating_all d then remaining_paths (complete_all_animations d) = []
        else remaining_paths (complete_all_animations d) = remaining_paths d)
    \<and> completed_paths (complete_all_animations d) = completed_paths d"
    by (simp add: complete_all_animations_def Let_def)
  from 3 5 6 7 show ?thesis by blast
qed

lemma first_frame:
  "animate 1 (restart (completed_stroke (410, 300) (390, 300))) =
     Some ((restart (completed_stroke (410, 300) (390, 300)))
        \<lparr>animation_points := [draw_epicycles (restart (completed_stroke (410, 300) (390, 300))) 0],
         time := 1 / 2\<rparr>)"
proof -
  have ne: "raw_points (restart (completed_stroke (410, 300) (390, 300))) \<noteq> []"
    using completed_stroke_fields(1) [of "(410, 300)" "(390, 300)"]
    by (auto simp add: restart_fields)
  show ?thesis
    using animate_running [OF restart_fields(1) ne, of 1]
    by (simp add: restart_fields completed_stroke_fields increment_two half_steps)
qed

lemma mid_replay_reached: "frame (no_input 0) (replay_all three_completed) = Some mid_replay"
  using first_frame
  by (simp add: frame_def record_step_def no_input_def replay_all_def three_completed_def
      FourierDrawing_init_def DEFAULT_SPEED_def handle_sequential_def mid_replay_def Let_def
      restart_def)


theorem complete_all_animations_keeps_traces_witness:
  "frame (no_input 0) (replay_all three_completed) = Some mid_replay
   \<and> list_all (\<lambda>p. state p \<noteq> Drawing) (active_paths mid_replay)
   \<and> animating_all mid_replay \<and> length (remaining_paths mid_replay) = 2
   \<and> map state (paths (complete_all_animations mid_replay)) = [Complete, Complete, Complete]
   \<and> animation_points (paths (complete_all_animations mid_replay) ! 0) \<noteq> []
   \<and> last (animation_points (paths (complete_all_animations mid_replay) ! 0))
       = calculate_point (restart (completed_stroke (410, 300) (390, 300))) 0"
proof -
  let ?A = "restart (completed_stroke (410, 300) (390, 300))"
  have act: "active_paths mid_replay =
      [?A\<lparr>animation_points := [draw_epicycles ?A 0], time := 1 / 2\<rparr>,
       completed_stroke (400, 310) (400, 290), completed_stroke (420, 320) (380, 280)]"
    and all: "animating_all mid_replay" and rem: "length (remaining_paths mid_replay) = 2"
    by (simp_all add: mid_replay_def replay_all_def three_completed_def active_paths_def
        FourierDrawing_init_def)
  have hyp: "list_all (\<lambda>p. state p \<noteq> Drawing) (active_paths mid_replay)"
    unfolding act by (simp add: completed_stroke_fields restart_fields)
  have lf: "last_frame 1 ?A (active_paths mid_replay ! 0)"
    unfolding act using first_frame by (simp add: last_frame_def restart_fields)
  have len: "0 < length (active_paths mid_replay)" unfolding act by simp
  note res = complete_all_animations_keeps_traces [OF hyp]
  from res have p: "paths (complete_all_animations mid_replay) =
      map (\<lambda>p. p\<lparr>state := Complete\<rparr>) (active_paths mid_replay)" by blast
  have states: "map state (paths (complete_all_animations mid_replay)) = [Complete, Complete, Complete]"
    unfolding p act by simp
  from res len lf have "animation_points (paths (complete_all_animations mid_replay) ! 0) \<noteq> []
      \<and> last (animation_points (paths (complete_all_animations mid_replay) ! 0))
          = calculate_point ?A (of_rat (time ?A))"
    by blast
  then have "animation_points (paths (complete_all_animations mid_replay) ! 0) \<noteq> []
      \<and> last (animation_points (paths (complete_all_animations mid_replay) ! 0))
          = calculate_point ?A 0"
    by (simp add: restart_fields)
  with mid_replay_reached hyp all rem states show ?thesis by blast
qed

text \<open>
  Claim C7 as stated fails: a path that is force-completed before its first frame (the
  recording ended and the skip was requested between two frames) is complete with an empty
  trace.
\<close>

theorem force_complete_empty_trace:
  "map state (paths (finish_current_path exact_kernel two_point_recording)) = [Animating]
   \<and> map state (paths (complete_all_animations (finish_current_path exact_kernel two_point_recording))) = [Complete]
   \<and> map animation_points (paths (complete_all_animations (finish_current_path exact_kernel two_point_recording))) = [[]]"
  by (simp add: two_point_recording_def finish_current_path_def FourierDrawing_init_def
      add_point_def Path_init_def calculate_fourier_def complete_all_animations_def
      complete_animation_def)


section \<open>The transform computes one coefficient per frequency index\<close>

lemma foldl_add_sum:
  fixes g :: "nat \<Rightarrow> 'a::comm_monoid_add"
  shows "foldl (\<lambda>c k. c + g k) a [0..<N] = a + (\<Sum>k = 0..<N. g k)"
  by (induction N) (simp_all add: add.assoc)

lemma fourier_coefficient_sum:
  "fourier_coefficient exact_kernel cps n =
     (\<Sum>k = 0..<length cps. cps ! k *
        exp (- 2 * \<i> * of_real pi * of_int n * of_nat k / of_nat (length cps)))
     / of_nat (length cps)"
  by (simp add: fourier_coefficient_def exact_kernel_def Let_def foldl_add_sum)

lemma foldl_append_filter:
  "foldl (\<lambda>eps n. let c = g n in if P c then eps @ [(n, c)] else eps) acc ns =
     acc @ filter (\<lambda>(n, c). P c) (map (\<lambda>n. (n, g n)) ns)"
  by (induction ns arbitrary: acc) (simp_all add: Let_def)

lemma fourier_loop_filter:
  "fourier_loop K cps = filter (\<lambda>(n, c). 1 < k_abs K c) (raw_coefficients K cps)"
  by (simp add: fourier_loop_def raw_coefficients_def foldl_append_filter)

lemma frequency_indices_eq:
  "frequency_indices N = [- ((int N + 1) div 2) .. int N div 2 - 1]"
proof -
  have "(- int N) div 2 = - ((int N + 1) div 2)" by presburger
  then show ?thesis by (simp add: frequency_indices_def py_range_def)
qed

lemma length_frequency_indices: "length (frequency_indices N) = N"
proof -
  have "int N div 2 - 1 - (- ((int N + 1) div 2)) + 1 = int N" by presburger
  then show ?thesis by (simp add: frequency_indices_eq)
qed

text \<open>
  Claim C1, amended. For a path of \<open>N \<ge> 2\<close> raw points the transform computes exactly one
  coefficient for each of the \<open>N\<close> consecutive integers from \<open>-\<lceil>N/2\<rceil>\<close> to \<open>\<lfloor>N/2\<rfloor> - 1\<close>, the
  coefficient at \<open>n\<close> being, with the exact kernel, \<open>1/N\<close> times the sum over \<open>k = 0..N-1\<close> of
  the centred complex sample \<open>k\<close> times \<open>exp (-2\<pi>ink/N)\<close>. With every kernel there are \<open>N\<close>
  coefficients and the stored list is these pairs, filtered and sorted. (In exact
  arithmetic the order of the summation, which the loop takes ascending in \<open>k\<close>, does not
  change the sum.)
\<close>

theorem transform_indices_and_coefficients:
  assumes "2 \<le> length (raw_points p)" and "cps = complex_points p" and "N = length cps"
  shows "raw_coefficients exact_kernel cps =
       map (\<lambda>n. (n, (\<Sum>k = 0..<N. cps ! k *
              exp (- 2 * \<i> * of_real pi * of_int n * of_nat k / of_nat N)) / of_nat N))
         [- ((int N + 1) div 2) .. int N div 2 - 1]
     \<and> length (raw_coefficients K cps) = N
     \<and> N = length (raw_points p)
     \<and> epicycles (calculate_fourier K p) =
         py_sort_reverse (\<lambda>x. k_abs K (snd x))
           (filter (\<lambda>(n, c). 1 < k_abs K c) (raw_coefficients K cps))"
  using assms
  by (simp add: raw_coefficients_def fourier_coefficient_sum frequency_indices_eq [symmetric]
      length_frequency_indices calculate_fourier_def fourier_loop_filter complex_points_def)

theorem transform_indices_and_coefficients_witness:
  "2 \<le> length (raw_points three_point_path)
   \<and> length (raw_coefficients exact_kernel (complex_points three_point_path)) = 3"
proof -
  have len: "length (raw_points three_point_path) = 3"
    by (simp add: three_point_path_def)
  then have two: "2 \<le> length (raw_points three_point_path)" by simp
  have three: "3 = length (complex_points three_point_path)"
    using len by (simp add: complex_points_def)
  from transform_indices_and_coefficients [OF two refl three, of exact_kernel]
  have "length (raw_coefficients exact_kernel (complex_points three_point_path)) = 3" by blast
  with two show ?thesis by blast
qed

lemma map_fst_raw_coefficients:
  "map fst (raw_coefficients K cps) = frequency_indices (length cps)"
  by (simp add: raw_coefficients_def comp_def)

lemma frequency_indices_three: "frequency_indices 3 = [-2, -1, 0]"
  by code_simp

lemma claimed_indices_three: "[- (int 3 div 2) .. int 3 div 2 - 1] = [-1, 0]"
  by code_simp

text \<open>
  Claim C1 as stated fails for odd \<open>N\<close>: with three points the loop visits the indices
  \<open>-2, -1, 0\<close>, while the integers from \<open>-\<lfloor>3/2\<rfloor>\<close> to \<open>\<lfloor>3/2\<rfloor> - 1\<close> are \<open>-1, 0\<close> only.
\<close>

theorem three_points_indices:
  "map fst (raw_coefficients exact_kernel (complex_points three_point_path)) = [-2, -1, 0]
   \<and> [- (int (length (raw_points three_point_path)) div 2) ..
        int (length (raw_points three_point_path)) div 2 - 1] = [-1, 0]"
proof -
  have len: "length (raw_points three_point_path) = 3"
    by (simp add: three_point_path_def)
  then have "length (complex_points three_point_path) = 3"
    by (simp add: complex_points_def)
  then show ?thesis
    using claimed_indices_three frequency_indices_three len
    by (simp add: map_fst_raw_coefficients)
qed

section \<open>The stored coefficients are filtered and sorted\<close>

lemma insort_key_lex:
  fixes f :: "'a \<Rightarrow> 'k::linorder" and idx :: "'a \<Rightarrow> int"
  assumes "sorted_wrt (\<lambda>a b. f a < f b \<or> (f a = f b \<and> idx b < idx a)) acc"
    and "\<forall>a \<in> set acc. idx a < idx x"
  shows "sorted_wrt (\<lambda>a b. f a < f b \<or> (f a = f b \<and> idx b < idx a)) (insort_key f x acc)"
  using assms
proof (induction acc)
  case Nil
  then show ?case by simp
next
  case (Cons y ys)
  show ?case
  proof (cases "f x \<le> f y")
    case True
    have "\<forall>z \<in> set (y # ys). f x < f z \<or> (f x = f z \<and> idx z < idx x)"
    proof
      fix z assume z: "z \<in> set (y # ys)"
      have "f y \<le> f z" using Cons.prems(1) z by auto
      with True have "f x \<le> f z" by simp
      moreover have "idx z < idx x" using Cons.prems(2) z by auto
      ultimately show "f x < f z \<or> (f x = f z \<and> idx z < idx x)" by auto
    qed
    with True Cons.prems(1) show ?thesis by simp
  next
    case False
    have tail: "sorted_wrt (\<lambda>a b. f a < f b \<or> (f a = f b \<and> idx b < idx a)) (insort_key f x ys)"
      using Cons by simp
    have "\<forall>z \<in> set (insort_key f x ys). f y < f z \<or> (f y = f z \<and> idx z < idx y)"
      using False Cons.prems(1) by (auto simp add: set_insort_key)
    with False tail show ?thesis by simp
  qed
qed

lemma sort_key_lex:
  fixes f :: "'a \<Rightarrow> 'k::linorder" and idx :: "'a \<Rightarrow> int"
  assumes "sorted_wrt (\<lambda>a b. idx b < idx a) ys"
  shows "sorted_wrt (\<lambda>a b. f a < f b \<or> (f a = f b \<and> idx b < idx a)) (sort_key f ys)"
  using assms
proof (induction ys)
  case Nil
  then show ?case by simp
next
  case (Cons y ys)
  have "\<forall>a \<in> set (sort_key f ys). idx a < idx y" using Cons.prems by simp
  moreover have "sorted_wrt (\<lambda>a b. f a < f b \<or> (f a = f b \<and> idx b < idx a)) (sort_key f ys)"
    using Cons by simp
  ultimately show ?case by (simp add: insort_key_lex)
qed

lemma py_sort_reverse_lex:
  fixes f :: "'a \<Rightarrow> 'k::linorder" and idx :: "'a \<Rightarrow> int"
  assumes "sorted_wrt (\<lambda>a b. idx a < idx b) xs"
  shows "sorted_wrt (\<lambda>a b. f b < f a \<or> (f a = f b \<and> idx a < idx b)) (py_sort_reverse f xs)"
proof -
  have "sorted_wrt (\<lambda>a b. idx b < idx a) (rev xs)"
    using assms by (simp add: sorted_wrt_rev)
  from sort_key_lex [OF this, of f]
  have "sorted_wrt (\<lambda>a b. f b < f a \<or> (f b = f a \<and> idx a < idx b)) (rev (sort_key f (rev xs)))"
    by (simp add: sorted_wrt_rev)
  then show ?thesis
    unfolding py_sort_reverse_def by (rule sorted_wrt_mono_rel [rotated]) auto
qed

lemma mset_py_sort_reverse: "mset (py_sort_reverse f xs) = mset xs"
  by (simp add: py_sort_reverse_def)

lemma frequency_indices_ascending: "sorted_wrt (<) (frequency_indices N)"
  by (simp add: frequency_indices_def py_range_def strict_sorted_iff)

lemma fourier_loop_ascending: "sorted_wrt (\<lambda>a b. fst a < fst b) (fourier_loop K cps)"
proof -
  have "sorted_wrt (\<lambda>a b. fst a < fst b) (raw_coefficients K cps)"
    using frequency_indices_ascending [of "length cps"]
    by (simp add: raw_coefficients_def sorted_wrt_map)
  then show ?thesis
    unfolding fourier_loop_filter by (rule sorted_wrt_filter)
qed

text \<open>
  Claim C2, for every kernel. The raw pairs are those the transform computes, in ascending
  index order. The stored coefficient list holds exactly the raw pairs whose magnitude, as
  \<open>abs\<close> computes it, exceeds 1, each as often as it occurs, and it is ordered by descending
  magnitude, two coefficients of equal magnitude standing in ascending order of their
  frequency index. The witness strokes show a swap by magnitude, a tie and a coefficient
  that is filtered out.
\<close>

theorem stored_coefficients_filtered_sorted:
  assumes "2 \<le> length (raw_points p)"
  shows "mset (epicycles (calculate_fourier K p)) =
       filter_mset (\<lambda>(n, c). 1 < k_abs K c) (mset (raw_coefficients K (complex_points p)))
     \<and> sorted_wrt (\<lambda>(n, c) (m, d). k_abs K d < k_abs K c \<or> (k_abs K c = k_abs K d \<and> n < m))
         (epicycles (calculate_fourier K p))"
proof -
  have eps: "epicycles (calculate_fourier K p) =
      py_sort_reverse (\<lambda>x. k_abs K (snd x)) (fourier_loop K (complex_points p))"
    using assms by (simp add: calculate_fourier_def)
  have "sorted_wrt (\<lambda>a b. k_abs K (snd b) < k_abs K (snd a)
        \<or> (k_abs K (snd a) = k_abs K (snd b) \<and> fst a < fst b))
      (py_sort_reverse (\<lambda>x. k_abs K (snd x)) (fourier_loop K (complex_points p)))"
    by (rule py_sort_reverse_lex [OF fourier_loop_ascending])
  then have "sorted_wrt (\<lambda>(n, c) (m, d). k_abs K d < k_abs K c \<or> (k_abs K c = k_abs K d \<and> n < m))
      (epicycles (calculate_fourier K p))"
    unfolding eps by (rule sorted_wrt_mono_rel [rotated]) auto
  then show ?thesis
    by (simp add: eps mset_py_sort_reverse fourier_loop_filter)
qed

lemma frequency_indices_two: "frequency_indices 2 = [-1, 0]"
  by code_simp

lemma two_point_coefficients:
  "raw_coefficients exact_kernel [s0, s1] = [(-1, (s0 - s1) / 2), (0, (s0 + s1) / 2)]"
proof -
  have "[0..<2] = [0, Suc 0]" by (simp add: upt_rec)
  moreover have "frequency_indices (Suc (Suc 0)) = [-1, 0]"
    using frequency_indices_two by (simp add: numeral_2_eq_2)
  ultimately show ?thesis
    by (simp add: raw_coefficients_def fourier_coefficient_def exact_kernel_def Let_def)
qed

lemma stroke_points:
  "complex_points (stroke (ax, ay) (bx, by)) =
     [Complex (of_int ax - 400) (of_int ay - 300), Complex (of_int bx - 400) (of_int by - 300)]"
  "length (raw_points (stroke a b)) = 2"
  by (simp_all add: stroke_def complex_points_def add_point_def Path_init_def WIDTH_def HEIGHT_def)

lemma stored_two_points:
  "epicycles (calculate_fourier exact_kernel (stroke (ax, ay) (bx, by))) =
     py_sort_reverse (\<lambda>x. cmod (snd x)) (filter (\<lambda>(n, c). 1 < cmod c)
       [(-1, (Complex (of_int ax - 400) (of_int ay - 300) - Complex (of_int bx - 400) (of_int by - 300)) / 2),
        (0, (Complex (of_int ax - 400) (of_int ay - 300) + Complex (of_int bx - 400) (of_int by - 300)) / 2)])"
  using two_point_coefficients
  by (simp add: calculate_fourier_def stroke_points fourier_loop_filter exact_kernel_def)

lemma stored_indices_filtered: "map fst (epicycles (calculate_fourier exact_kernel (stroke (410, 300) (390, 300)))) = [-1]"
  by (simp add: stored_two_points py_sort_reverse_def complex_eq_iff cmod_def)

lemma stored_indices_reordered: "map fst (epicycles (calculate_fourier exact_kernel (stroke (430, 300) (410, 300)))) = [0, -1]"
  by (simp add: stored_two_points py_sort_reverse_def complex_eq_iff cmod_def)

lemma stored_indices_tie: "map fst (epicycles (calculate_fourier exact_kernel (stroke (410, 300) (400, 300)))) = [-1, 0]"
  by (simp add: stored_two_points py_sort_reverse_def complex_eq_iff cmod_def)


theorem stored_coefficients_filtered_sorted_witness:
  "2 \<le> length (raw_points (stroke (430, 300) (410, 300)))
   \<and> map fst (epicycles (calculate_fourier exact_kernel (stroke (430, 300) (410, 300)))) = [0, -1]
   \<and> sorted_wrt (\<lambda>(n, c) (m, d). k_abs exact_kernel d < k_abs exact_kernel c
          \<or> (k_abs exact_kernel c = k_abs exact_kernel d \<and> n < m))
        (epicycles (calculate_fourier exact_kernel (stroke (430, 300) (410, 300))))
   \<and> 2 \<le> length (raw_points (stroke (410, 300) (400, 300)))
   \<and> map fst (epicycles (calculate_fourier exact_kernel (stroke (410, 300) (400, 300)))) = [-1, 0]
   \<and> sorted_wrt (\<lambda>(n, c) (m, d). k_abs exact_kernel d < k_abs exact_kernel c
          \<or> (k_abs exact_kernel c = k_abs exact_kernel d \<and> n < m))
        (epicycles (calculate_fourier exact_kernel (stroke (410, 300) (400, 300))))
   \<and> map fst (epicycles (calculate_fourier exact_kernel (stroke (410, 300) (390, 300)))) = [-1]"
proof -
  have two: "2 \<le> length (raw_points (stroke a b))" for a b
    by (simp add: stroke_points)
  from stored_coefficients_filtered_sorted [OF two, of exact_kernel "(430, 300)" "(410, 300)"]
    stored_coefficients_filtered_sorted [OF two, of exact_kernel "(410, 300)" "(400, 300)"]
    two [of "(430, 300)" "(410, 300)"] two [of "(410, 300)" "(400, 300)"]
    stored_indices_reordered stored_indices_tie stored_indices_filtered
  show ?thesis by blast
qed

section \<open>The round trip\<close>

lemma cis_eq_one_imp:
  assumes "cis (2 * pi * of_int d / of_nat N) = 1" "0 < N"
  shows "int N dvd d"
proof -
  have "cos (2 * pi * of_int d / of_nat N) = 1"
    using assms(1) by (metis cis.simps(1) one_complex.simps(1))
  then obtain m :: int where m: "2 * pi * of_int d / of_nat N = of_int m * 2 * pi"
    using cos_one_2pi_int by blast
  have "real_of_int d = of_int m * of_nat N"
  proof -
    have "2 * pi * of_int d = of_int m * 2 * pi * of_nat N"
      using m assms(2) by (simp add: field_simps)
    then have "2 * pi * real_of_int d = 2 * pi * (of_int m * of_nat N)" by (simp add: mult_ac)
    then show ?thesis by simp
  qed
  then have "d = m * int N" using of_int_eq_iff by fastforce
  then show ?thesis by simp
qed

lemma roots_of_unity_sum:
  assumes "0 < N" "\<not> int N dvd d"
  shows "(\<Sum>m = 0..<N. cis (2 * pi * of_int d * of_nat m / of_nat N)) = 0"
proof -
  let ?w = "cis (2 * pi * of_int d / of_nat N)"
  have w1: "?w \<noteq> 1" using cis_eq_one_imp assms by blast
  have pow: "cis (2 * pi * of_int d * of_nat m / of_nat N) = ?w ^ m" for m
    by (simp add: DeMoivre mult_ac)
  have "?w ^ N = cis (2 * pi * of_int d)"
    using assms(1) by (simp add: DeMoivre)
  then have wN: "?w ^ N = 1" by simp
  have "(\<Sum>m = 0..<N. ?w ^ m) = (?w ^ N - 1) / (?w - 1)"
    using geometric_sum [OF w1, of N] by (simp add: atLeast0LessThan)
  then show ?thesis by (simp add: pow wN)
qed

lemma upto_as_map: "[a..a + int N - 1] = map (\<lambda>m. a + int m) [0..<N]"
proof (induction N)
  case 0
  then show ?case by simp
next
  case (Suc N)
  have "[a..a + int (Suc N) - 1] = [a..a + int N - 1] @ [a + int N]"
    using upto_rec2 [of a "a + int N"] by simp
  then show ?case using Suc by simp
qed

lemma frequency_indices_as_map:
  "frequency_indices N = map (\<lambda>m. (- int N) div 2 + int m) [0..<N]"
proof -
  have "int N div 2 - 1 = (- int N) div 2 + int N - 1" by presburger
  then show ?thesis
    by (simp add: frequency_indices_def py_range_def upto_as_map)
qed

lemma exp_as_cis:
  "exp (- 2 * \<i> * of_real pi * of_int n * of_nat k / of_nat N) =
     cis (- (2 * pi * of_int n * of_nat k / of_nat N))"
  by (simp add: cis_conv_exp mult_ac)

lemma inverse_transform:
  assumes "k < length cps"
  shows "(\<Sum>(n, c)\<leftarrow>raw_coefficients exact_kernel cps.
            c * cis (2 * pi * of_int n * (of_nat k / of_nat (length cps)))) = cps ! k"
proof -
  let ?N = "length cps"
  let ?a = "(- int ?N) div 2"
  have N0: "0 < ?N" using assms by (cases cps) simp_all
  have tm: "fourier_coefficient exact_kernel cps n * cis (2 * pi * of_int n * (of_nat k / of_nat ?N)) =
      (\<Sum>j = 0..<?N. cps ! j * cis (2 * pi * of_int (n * (int k - int j)) / of_nat ?N)) / of_nat ?N"
    for n
  proof -
    have arg: "- (2 * pi * of_int n * of_nat j / of_nat ?N) + 2 * pi * of_int n * (of_nat k / of_nat ?N)
        = 2 * pi * of_int (n * (int k - int j)) / real ?N" for j
      by (simp add: algebra_simps diff_divide_distrib)
    have "cis (- (2 * pi * of_int n * of_nat j / of_nat ?N)) * cis (2 * pi * of_int n * (of_nat k / of_nat ?N))
        = cis (2 * pi * of_int (n * (int k - int j)) / of_nat ?N)" for j
      by (simp only: cis_mult arg)
    then have key: "cis (- (2 * pi * of_int n * of_nat j / of_nat ?N)) * cis (2 * pi * of_int n * (of_nat k / of_nat ?N))
        = cis (2 * pi * of_int (n * (int k - int j)) / of_nat ?N)" for j .
    have "fourier_coefficient exact_kernel cps n * cis (2 * pi * of_int n * (of_nat k / of_nat ?N)) =
        (\<Sum>j = 0..<?N. cps ! j * (cis (- (2 * pi * of_int n * of_nat j / of_nat ?N))
            * cis (2 * pi * of_int n * (of_nat k / of_nat ?N)))) / of_nat ?N"
      unfolding fourier_coefficient_sum exp_as_cis
      by (simp only: times_divide_eq_left sum_distrib_right mult.assoc)
    then show ?thesis by (simp only: key)
  qed
  have inner: "(\<Sum>m = 0..<?N. cis (2 * pi * of_int ((?a + int m) * (int k - int j)) / of_nat ?N))
      = (if j = k then of_nat ?N else 0)" if "j < ?N" for j
  proof (cases "j = k")
    case True
    then show ?thesis by simp
  next
    case False
    have nd: "\<not> int ?N dvd (int k - int j)"
    proof
      assume "int ?N dvd (int k - int j)"
      then have "int k - int j = 0 \<or> int ?N \<le> \<bar>int k - int j\<bar>"
        using dvd_imp_le_int [of "int k - int j" "int ?N"] by auto
      with False that assms show False by auto
    qed
    have arg: "2 * pi * of_int (?a * (int k - int j)) / real ?N
          + 2 * pi * of_int (int k - int j) * of_nat m / real ?N
        = 2 * pi * of_int ((?a + int m) * (int k - int j)) / real ?N" for m
      by (simp add: algebra_simps add_divide_distrib diff_divide_distrib)
    have split: "cis (2 * pi * of_int ((?a + int m) * (int k - int j)) / of_nat ?N) =
        cis (2 * pi * of_int (?a * (int k - int j)) / of_nat ?N) *
        cis (2 * pi * of_int (int k - int j) * of_nat m / of_nat ?N)" for m
      by (simp only: cis_mult arg)
    show ?thesis
      using False roots_of_unity_sum [OF N0 nd]
      by (simp only: split sum_distrib_left [symmetric]) simp
  qed
  have "(\<Sum>(n, c)\<leftarrow>raw_coefficients exact_kernel cps.
            c * cis (2 * pi * of_int n * (of_nat k / of_nat ?N)))
      = (\<Sum>m = 0..<?N. fourier_coefficient exact_kernel cps (?a + int m) *
            cis (2 * pi * of_int (?a + int m) * (of_nat k / of_nat ?N)))"
    by (simp add: raw_coefficients_def frequency_indices_as_map comp_def
        interv_sum_list_conv_sum_set_nat del: of_int_add)
  also have "\<dots> = (\<Sum>m = 0..<?N. (\<Sum>j = 0..<?N. cps ! j *
        cis (2 * pi * of_int ((?a + int m) * (int k - int j)) / of_nat ?N)) / of_nat ?N)"
    by (simp only: tm)
  also have "\<dots> = (\<Sum>j = 0..<?N. cps ! j * (\<Sum>m = 0..<?N.
        cis (2 * pi * of_int ((?a + int m) * (int k - int j)) / of_nat ?N))) / of_nat ?N"
  proof -
    have "(\<Sum>m = 0..<?N. \<Sum>j = 0..<?N. cps ! j *
          cis (2 * pi * of_int ((?a + int m) * (int k - int j)) / of_nat ?N))
        = (\<Sum>j = 0..<?N. \<Sum>m = 0..<?N. cps ! j *
          cis (2 * pi * of_int ((?a + int m) * (int k - int j)) / of_nat ?N))"
      by (rule sum.swap)
    then show ?thesis
      by (simp only: sum_divide_distrib [symmetric] sum_distrib_left)
  qed
  also have "\<dots> = (\<Sum>j = 0..<?N. cps ! j * (if j = k then of_nat ?N else 0)) / of_nat ?N"
    using inner by simp
  also have "\<dots> = cps ! k"
  proof -
    have "(\<Sum>j = 0..<?N. cps ! j * (if j = k then of_nat ?N else 0))
        = (\<Sum>j = 0..<?N. if j = k then cps ! k * of_nat ?N else 0)"
      by (intro sum.cong) auto
    also have "\<dots> = cps ! k * of_nat ?N"
      using assms by (simp add: sum.delta)
    finally show ?thesis using N0 by simp
  qed
  finally show ?thesis .
qed

lemma epicycle_vector:
  "cmod c * cos (a + Arg c) = Re (c * cis a)" "cmod c * sin (a + Arg c) = Im (c * cis a)"
proof -
  have "cis a = rcis 1 a" by (simp add: rcis_def)
  then have "c * cis a = rcis (cmod c) (Arg c) * rcis 1 a"
    by (simp only: rcis_cmod_Arg)
  also have "\<dots> = rcis (cmod c) (a + Arg c)"
    by (simp add: rcis_mult add.commute)
  finally have eq: "c * cis a = rcis (cmod c) (a + Arg c)" .
  show "cmod c * cos (a + Arg c) = Re (c * cis a)" "cmod c * sin (a + Arg c) = Im (c * cis a)"
    unfolding eq by simp_all
qed

lemma chain_sum_complex:
  "(\<Sum>(n, c)\<leftarrow>es. cmod c * cos (2 * pi * of_int n * t + Arg c)) =
      Re (\<Sum>(n, c)\<leftarrow>es. c * cis (2 * pi * of_int n * t))"
  "(\<Sum>(n, c)\<leftarrow>es. cmod c * sin (2 * pi * of_int n * t + Arg c)) =
      Im (\<Sum>(n, c)\<leftarrow>es. c * cis (2 * pi * of_int n * t))"
  by (induction es) (auto simp add: epicycle_vector)

text \<open>
  Claim C4, in exact arithmetic. For a path of \<open>N \<ge> 2\<close> raw points and every \<open>k < N\<close>, the
  inverse summation of the full, unfiltered coefficients at the instant \<open>k/N\<close> is the
  \<open>k\<close>-th centred sample, and \<open>calculate_point\<close> on the unfiltered coefficients returns the
  \<open>k\<close>-th recorded position. The floating-point computation differs from this by its
  rounding errors only.
\<close>

theorem round_trip:
  assumes "2 \<le> length (raw_points p)" and "k < length (raw_points p)"
  shows "(\<Sum>(n, c)\<leftarrow>raw_coefficients exact_kernel (complex_points p).
            c * cis (2 * pi * of_int n * (of_nat k / of_nat (length (raw_points p)))))
         = complex_points p ! k
     \<and> calculate_point (p\<lparr>epicycles := raw_coefficients exact_kernel (complex_points p)\<rparr>)
         (of_nat k / of_nat (length (raw_points p)))
         = (of_int (fst (pos (raw_points p ! k))), of_int (snd (pos (raw_points p ! k))))"
proof -
  have len: "length (complex_points p) = length (raw_points p)"
    by (simp add: complex_points_def)
  have inv: "(\<Sum>(n, c)\<leftarrow>raw_coefficients exact_kernel (complex_points p).
            c * cis (2 * pi * of_int n * (of_nat k / of_nat (length (raw_points p)))))
         = complex_points p ! k"
    using inverse_transform [of k "complex_points p"] assms(2) by (simp add: len)
  have pt: "complex_points p ! k =
      Complex (of_int (fst (pos (raw_points p ! k))) - of_int WIDTH / 2)
              (of_int (snd (pos (raw_points p ! k))) - of_int HEIGHT / 2)"
    using assms(2) by (simp add: complex_points_def)
  let ?t = "real k / real (length (raw_points p))"
  let ?q = "p\<lparr>epicycles := raw_coefficients exact_kernel (complex_points p)\<rparr>"
  have eps: "epicycles ?q = raw_coefficients exact_kernel (complex_points p)" by simp
  have "calculate_point ?q ?t =
      (of_int WIDTH / 2 + Re (complex_points p ! k), of_int HEIGHT / 2 + Im (complex_points p ! k))"
    unfolding calculate_point_def point_loop_sum eps chain_sum_complex inv ..
  then have "calculate_point ?q ?t =
      (of_int (fst (pos (raw_points p ! k))), of_int (snd (pos (raw_points p ! k))))"
    by (simp add: pt)
  with inv show ?thesis by simp
qed

theorem round_trip_witness:
  "2 \<le> length (raw_points three_point_path) \<and> 1 < length (raw_points three_point_path)
   \<and> calculate_point
       (three_point_path\<lparr>epicycles := raw_coefficients exact_kernel (complex_points three_point_path)\<rparr>)
       (1 / 3) = (400, 310)"
proof -
  have len: "length (raw_points three_point_path) = 3"
    by (simp add: three_point_path_def)
  have two: "2 \<le> length (raw_points three_point_path)"
    and one: "1 < length (raw_points three_point_path)"
    using len by simp_all
  have at: "pos (raw_points three_point_path ! 1) = (400, 310)"
    by (simp add: three_point_path_def)
  from round_trip [OF two one]
  have "calculate_point
       (three_point_path\<lparr>epicycles := raw_coefficients exact_kernel (complex_points three_point_path)\<rparr>)
       (real 1 / real (length (raw_points three_point_path)))
       = (of_int (fst (pos (raw_points three_point_path ! 1))),
          of_int (snd (pos (raw_points three_point_path ! 1))))"
    by (rule conjunct2)
  then have "calculate_point
       (three_point_path\<lparr>epicycles := raw_coefficients exact_kernel (complex_points three_point_path)\<rparr>)
       (1 / 3) = (400, 310)"
    unfolding at len by simp
  with two one show ?thesis by blast
qed

section \<open>Properties of the binary64 rounding\<close>

lemma two_powi_nat: "0 \<le> k \<Longrightarrow> (2::rat) powi k = 2 ^ nat k"
  by (simp add: power_int_def)

lemma bitlen_bounds_rat:
  assumes "0 < p"
  shows "2 powi (bitlen p - 1) \<le> (of_int p :: rat)" and "(of_int p :: rat) < 2 powi (bitlen p)"
proof -
  have a1: "1 \<le> bitlen p"
    using assms bitlen_eq_zero_iff [of p] bitlen_nonneg [of p] by linarith
  from bitlen_bounds [OF assms]
  have lo: "2 ^ nat (bitlen p - 1) \<le> p" and hi: "p < 2 ^ nat (bitlen p)" by simp_all
  have "(of_int (2 ^ nat (bitlen p - 1)) :: rat) \<le> of_int p"
    using lo by (simp only: of_int_le_iff)
  then show "2 powi (bitlen p - 1) \<le> (of_int p :: rat)"
    using a1 by (simp add: two_powi_nat)
  have "(of_int p :: rat) < of_int (2 ^ nat (bitlen p))"
    using hi by (simp only: of_int_less_iff)
  then show "(of_int p :: rat) < 2 powi (bitlen p)"
    using a1 by (simp add: two_powi_nat)
qed

lemma ilog2_bounds:
  assumes "0 < x"
  shows "2 powi (ilog2 x) \<le> x" and "x < 2 powi (ilog2 x + 1)"
proof -
  obtain p q where pq: "quotient_of x = (p, q)" by (cases "quotient_of x")
  have q: "0 < q" using pq by (rule quotient_of_denom_pos)
  have x: "x = of_int p / of_int q" using pq by (rule quotient_of_div)
  have p: "0 < p" using assms q x by (simp add: zero_less_divide_iff)
  let ?a = "bitlen p" and ?b = "bitlen q"
  note P = bitlen_bounds_rat [OF p] and Q = bitlen_bounds_rat [OF q]
  have pos: "(0::rat) < 2 powi k" for k by simp
  have "x < 2 powi ?a / 2 powi (?b - 1)"
    unfolding x using p P(2) pos [of "?b - 1"] Q(1) by (intro frac_less) simp_all
  then have up: "x < 2 powi (?a - ?b + 1)"
    by (simp add: power_int_diff [symmetric] algebra_simps)
  have "2 powi (?a - 1) / 2 powi ?b < x"
    unfolding x using pos [of "?a - 1"] P(1) q Q(2) by (intro frac_less2) simp_all
  then have lo: "2 powi (?a - ?b - 1) < x"
    by (simp add: power_int_diff [symmetric] algebra_simps)
  have il: "ilog2 x = (if 2 powi (?a - ?b) \<le> x then ?a - ?b else ?a - ?b - 1)"
    by (simp add: ilog2_def pq Let_def)
  show "2 powi (ilog2 x) \<le> x"
    using lo by (simp add: il)
  show "x < 2 powi (ilog2 x + 1)"
    using up by (simp add: il)
qed

lemma ilog2_ge:
  assumes "2 powi k \<le> x"
  shows "k \<le> ilog2 x"
proof -
  have "(0::rat) < 2 powi k" by simp
  with assms have "0 < x" by linarith
  from ilog2_bounds(2) [OF this] assms have "(2::rat) powi k < 2 powi (ilog2 x + 1)" by simp
  then have "k < ilog2 x + 1"
    by (metis linorder_not_less one_le_numeral power_int_increasing)
  then show ?thesis by simp
qed

lemma ilog2_le:
  assumes "0 < x" "x \<le> 2 powi k"
  shows "ilog2 x \<le> k"
proof -
  from ilog2_bounds(1) [OF assms(1)] assms(2) have "(2::rat) powi (ilog2 x) \<le> 2 powi k" by simp
  then show ?thesis
    by (metis linorder_not_less one_less_numeral_iff power_int_strict_increasing semiring_norm(76))
qed

lemma ilog2_less:
  assumes "0 < x" "x < 2 powi k"
  shows "ilog2 x < k"
proof -
  from ilog2_bounds(1) [OF assms(1)] assms(2) have "(2::rat) powi (ilog2 x) < 2 powi k" by simp
  then show ?thesis
    by (metis linorder_not_less one_le_numeral power_int_increasing)
qed

lemma round_even_error: "\<bar>of_int (round_even y) - y\<bar> \<le> 1 / 2"
proof -
  have "of_int \<lfloor>y\<rfloor> \<le> y" "y < of_int \<lfloor>y\<rfloor> + 1" by linarith+
  then show ?thesis
    by (auto simp add: round_even_def Let_def abs_le_iff)
qed

lemma round_even_ge: "of_int m \<le> y \<Longrightarrow> m \<le> round_even y"
proof -
  assume "of_int m \<le> y"
  then have "m \<le> \<lfloor>y\<rfloor>" by (simp add: le_floor_iff)
  then show ?thesis by (auto simp add: round_even_def Let_def)
qed

lemma round_even_le: "y \<le> of_int m \<Longrightarrow> round_even y \<le> m"
proof -
  assume m: "y \<le> of_int m"
  have f: "\<lfloor>y\<rfloor> \<le> m" using m by (simp add: floor_le_iff) 
  have "1 / 2 \<le> y - of_int \<lfloor>y\<rfloor> \<Longrightarrow> \<lfloor>y\<rfloor> + 1 \<le> m"
  proof -
    assume "1 / 2 \<le> y - of_int \<lfloor>y\<rfloor>"
    then have "of_int \<lfloor>y\<rfloor> < y" by simp
    with m have "(of_int \<lfloor>y\<rfloor> :: rat) < of_int m" by simp
    then show ?thesis by simp
  qed
  with f show ?thesis by (auto simp add: round_even_def Let_def)
qed

lemma round53_pos:
  assumes "0 < x"
  shows "round53 x = of_int (round_even (x / 2 powi (ilog2 x - 52))) * 2 powi (ilog2 x - 52)"
  using assms by (simp add: round53_def Let_def)

lemma scaled_bounds:
  assumes "0 < x"
  shows "2 ^ 52 \<le> x / 2 powi (ilog2 x - 52)" and "x / 2 powi (ilog2 x - 52) < 2 ^ 53"
proof -
  have u: "(0::rat) < 2 powi (ilog2 x - 52)" by simp
  have e: "(2::rat) powi (ilog2 x) = 2 ^ 52 * 2 powi (ilog2 x - 52)"
    by (simp add: power_int_diff)
  have e1: "(2::rat) powi (ilog2 x + 1) = 2 ^ 53 * 2 powi (ilog2 x - 52)"
    by (simp add: power_int_diff power_int_add)
  show "2 ^ 52 \<le> x / 2 powi (ilog2 x - 52)"
    using ilog2_bounds(1) [OF assms] u unfolding e by (simp add: pos_le_divide_eq)
  show "x / 2 powi (ilog2 x - 52) < 2 ^ 53"
    using ilog2_bounds(2) [OF assms] u unfolding e1 by (simp add: pos_divide_less_eq)
qed

lemma round53_ge_pow:
  assumes "2 powi k \<le> x"
  shows "2 powi k \<le> round53 x"
proof -
  have "(0::rat) < 2 powi k" by simp
  with assms have x: "0 < x" by linarith
  let ?u = "(2::rat) powi (ilog2 x - 52)"
  have "(of_int (2 ^ 52) :: rat) \<le> x / ?u" using scaled_bounds(1) [OF x] by simp
  then have "2 ^ 52 \<le> round_even (x / ?u)" by (rule round_even_ge)
  then have "(of_int (2 ^ 52) :: rat) \<le> of_int (round_even (x / ?u))"
    by (simp only: of_int_le_iff)
  then have A: "2 ^ 52 * ?u \<le> of_int (round_even (x / ?u)) * ?u"
    by (simp add: mult_right_mono)
  have B: "2 ^ 52 * ?u = 2 powi (ilog2 x)" by (simp add: power_int_diff)
  have C: "(2::rat) powi k \<le> 2 powi (ilog2 x)"
    using ilog2_ge [OF assms] by (simp add: power_int_increasing)
  show ?thesis unfolding round53_pos [OF x] using A B C by linarith
qed

lemma round53_le_pow:
  assumes "0 < x" "x \<le> 2 powi k"
  shows "round53 x \<le> 2 powi k"
proof (cases "x = 2 powi k")
  case True
  let ?u = "(2::rat) powi (ilog2 x - 52)"
  have "ilog2 x = k"
    using ilog2_le [OF assms] ilog2_ge [of k x] True by simp
  then have "x / ?u = of_int (2 ^ 52)"
    using True by (simp add: power_int_diff)
  then have "round_even (x / ?u) = 2 ^ 52"
    using round_even_ge [of "2 ^ 52" "x / ?u"] round_even_le [of "x / ?u" "2 ^ 52"] by simp
  then have "round53 x = 2 ^ 52 * ?u" by (simp add: round53_pos [OF assms(1)])
  also have "\<dots> = 2 powi (ilog2 x)" by (simp add: power_int_diff)
  finally show ?thesis using \<open>ilog2 x = k\<close> by simp
next
  case False
  let ?u = "(2::rat) powi (ilog2 x - 52)"
  from False assms have "x < 2 powi k" by simp
  from ilog2_less [OF assms(1) this] have e: "ilog2 x + 1 \<le> k" by simp
  have "x / ?u \<le> of_int (2 ^ 53)" using scaled_bounds(2) [OF assms(1)] by simp
  then have "round_even (x / ?u) \<le> 2 ^ 53" by (rule round_even_le)
  then have "(of_int (round_even (x / ?u)) :: rat) \<le> of_int (2 ^ 53)"
    by (simp only: of_int_le_iff)
  then have A: "of_int (round_even (x / ?u)) * ?u \<le> 2 ^ 53 * ?u"
    by (simp add: mult_right_mono)
  have B: "2 ^ 53 * ?u = 2 powi (ilog2 x + 1)" by (simp add: power_int_diff power_int_add)
  have C: "(2::rat) powi (ilog2 x + 1) \<le> 2 powi k"
    using e by (simp add: power_int_increasing)
  show ?thesis unfolding round53_pos [OF assms(1)] using A B C by linarith
qed

lemma round53_error:
  assumes "0 < x" "x < 2"
  shows "\<bar>round53 x - x\<bar> \<le> 1 / 2 ^ 53"
proof -
  let ?u = "(2::rat) powi (ilog2 x - 52)"
  have u: "0 < ?u" by simp
  have "x < 2 powi 1" using assms(2) by simp
  then have "ilog2 x \<le> 0" using ilog2_less [OF assms(1), of 1] by simp
  then have u52: "?u \<le> 2 powi (- 52)" by (intro power_int_increasing) simp_all
  have "(2::rat) powi (- 52) = inverse (2 powi 52)" by (rule power_int_minus)
  also have "\<dots> = 1 / 2 ^ 52" by (simp add: two_powi_nat inverse_eq_divide)
  finally have ule: "?u \<le> 1 / 2 ^ 52" using u52 by simp
  have "(of_int (round_even (x / ?u)) - x / ?u) * ?u = round53 x - x"
    unfolding round53_pos [OF assms(1)] using u by (simp add: left_diff_distrib)
  then have "\<bar>round53 x - x\<bar> = \<bar>(of_int (round_even (x / ?u)) - x / ?u) * ?u\<bar>"
    by simp
  also have "\<dots> = \<bar>of_int (round_even (x / ?u)) - x / ?u\<bar> * ?u"
    using u by (simp only: abs_mult abs_of_pos)
  finally have "\<bar>round53 x - x\<bar> = \<bar>of_int (round_even (x / ?u)) - x / ?u\<bar> * ?u" .
  also have "\<dots> \<le> (1 / 2) * ?u"
    using round_even_error [of "x / ?u"] u by (simp add: mult_right_mono)
  also have "\<dots> \<le> 1 / 2 ^ 53" using ule by simp
  finally show ?thesis .
qed



section \<open>Every frame advances the animation time\<close>

lemma increment_bounds:
  assumes "2 \<le> N" "N \<le> 2 ^ 40" "1 / 16 \<le> s" "s \<le> 1"
  shows "1 / 2 ^ 44 \<le> increment s N" and "increment s N \<le> 1 / 2"
proof -
  let ?F = "float_of_int (int N)"
  let ?D = "fdiv 1 ?F"
  have N1: "(2::rat) powi 1 \<le> of_int (int N)" using assms(1) by simp
  have "(of_nat N :: rat) \<le> of_nat (2 ^ 40)" using assms(2) by (simp only: of_nat_le_iff)
  then have N2: "(of_int (int N) :: rat) \<le> 2 powi 40" by simp
  have N0: "(0::rat) < of_int (int N)" using assms(1) by simp
  have F1: "2 \<le> ?F" using round53_ge_pow [OF N1] by (simp add: float_of_int_def)
  have F2: "?F \<le> 2 ^ 40" using round53_le_pow [OF N0 N2] by (simp add: float_of_int_def)
  have F0: "0 < ?F" using F1 by simp
  have "1 / 2 ^ 40 \<le> 1 / ?F" using F0 F2 by (simp add: field_simps)
  then have q1: "2 powi (- 40) \<le> 1 / ?F" by simp
  have "1 / ?F \<le> 1 / 2" using F0 F1 by (simp add: field_simps)
  then have q2: "1 / ?F \<le> 2 powi (- 1)" by simp
  have q0: "0 < 1 / ?F" using F0 by simp
  have D1: "1 / 2 ^ 40 \<le> ?D" using round53_ge_pow [OF q1] by (simp add: fdiv_def)
  have D2: "?D \<le> 1 / 2" using round53_le_pow [OF q0 q2] by (simp add: fdiv_def)
  have D0: "0 < ?D" using D1 by (rule less_le_trans [rotated]) simp
  have s0: "0 < s" using assms(3) by simp
  have "(1 / 2 ^ 40) * (1 / 16) \<le> ?D * s"
    using D1 assms(3) by (intro mult_mono) simp_all
  then have m1: "2 powi (- 44) \<le> ?D * s" by simp
  have "?D * s \<le> (1 / 2) * 1"
    using D2 assms(4) D0 s0 by (intro mult_mono) simp_all
  then have m2: "?D * s \<le> 2 powi (- 1)" by simp
  have m0: "0 < ?D * s" using D0 s0 by simp
  show "1 / 2 ^ 44 \<le> increment s N"
    using round53_ge_pow [OF m1] by (simp add: increment_def fmul_def)
  show "increment s N \<le> 1 / 2"
    using round53_le_pow [OF m0 m2] by (simp add: increment_def fmul_def)
qed

lemma time_progress:
  assumes "0 \<le> t" "t < 1" "1 / 2 ^ 44 \<le> inc" "inc \<le> 1 / 2"
  shows "t + 1 / 2 ^ 45 \<le> fadd t inc"
proof -
  have "0 < t + inc" using assms(1,3) by (intro add_nonneg_pos) (simp, rule less_le_trans [rotated], assumption, simp)
  moreover have "t + inc < 2" using assms(2,4) by simp
  ultimately have "\<bar>round53 (t + inc) - (t + inc)\<bar> \<le> 1 / 2 ^ 53" by (rule round53_error)
  then have "t + inc - 1 / 2 ^ 53 \<le> round53 (t + inc)" by linarith
  with assms(3) show ?thesis unfolding fadd_def by simp
qed

lemma SPEED_MIN_ge: "1 / 16 \<le> SPEED_MIN"
proof -
  have "(2::rat) powi (- 4) \<le> 1 / 10" by simp
  from round53_ge_pow [OF this] show ?thesis by (simp add: SPEED_MIN_def)
qed


section \<open>Replaying all paths\<close>

lemma record_step_fields:
  "paths (record_step i d) = paths d"
  "animation_speed (record_step i d) = animation_speed d"
  "animating_all (record_step i d) = animating_all d"
  "completed_paths (record_step i d) = completed_paths d"
  "remaining_paths (record_step i d) = remaining_paths d"
  by (auto simp add: record_step_def split: prod.splits option.splits)

lemma animate_keeps:
  "animate s p = Some p' \<Longrightarrow> raw_points p' = raw_points p \<and> epicycles p' = epicycles p"
  by (auto simp add: animate_def Let_def split: if_splits)

lemma animate_n_keeps:
  "animate_n s n p = Some p' \<Longrightarrow> raw_points p' = raw_points p \<and> epicycles p' = epicycles p"
proof (induction n arbitrary: p)
  case 0
  then show ?case by simp
next
  case (Suc n)
  then obtain q where q: "animate s p = Some q" "animate_n s n q = Some p'"
    by (auto split: option.splits)
  from Suc.IH [OF q(2)] animate_keeps [OF q(1)] show ?case by simp
qed

lemma animate_n_snoc:
  "animate_n s n p = Some q \<Longrightarrow> animate s q = Some q' \<Longrightarrow> animate_n s (Suc n) p = Some q'"
  using animate_n_add [of s n "Suc 0" p] by simp

lemma frame_step:
  assumes "animating_all d" "paths d = [cur]" "state cur = Animating" "raw_points cur \<noteq> []"
    and "t' = fadd (time cur) (increment (animation_speed d) (length (raw_points cur)))"
  shows "\<exists>d' cur'. frame i d = Some d' \<and> animation_speed d' = animation_speed d
    \<and> animate (animation_speed d) cur = Some cur'
    \<and> (if t' < 1
        then paths d' = [cur'] \<and> state cur' = Animating \<and> time cur' = t'
          \<and> completed_paths d' = completed_paths d
          \<and> remaining_paths d' = remaining_paths d \<and> animating_all d'
        else state cur' = Complete
          \<and> (case remaining_paths d of
                r # rs \<Rightarrow>
                  paths d' = [restart r]
                  \<and> completed_paths d' = completed_paths d @ [cur']
                  \<and> remaining_paths d' = rs \<and> animating_all d'
              | [] \<Rightarrow>
                  paths d' = completed_paths d @ [cur'] \<and> completed_paths d' = []
                  \<and> remaining_paths d' = [] \<and> \<not> animating_all d'))"
proof (cases "t' < 1")
  case True
  let ?cur' = "cur\<lparr>animation_points := animation_points cur @ [draw_epicycles cur (of_rat (time cur))],
      time := t'\<rparr>"
  have an: "animate (animation_speed d) cur = Some ?cur'"
    using animate_running [OF assms(3,4), of "animation_speed d"] True assms(5) by simp
  have "frame i d = Some ((record_step i d)\<lparr>paths := [?cur']\<rparr>)"
    using assms(1,2,3) an by (simp add: frame_def Let_def record_step_fields handle_sequential_def)
  then show ?thesis
    using True assms(1,3) an by (simp add: record_step_fields)
next
  case False
  let ?cur' = "cur\<lparr>animation_points := animation_points cur @ [draw_epicycles cur (of_rat (time cur))],
      time := 0, state := Complete\<rparr>"
  have an: "animate (animation_speed d) cur = Some ?cur'"
    using animate_running [OF assms(3,4), of "animation_speed d"] False assms(5) by simp
  have fr: "frame i d = Some (handle_sequential ((record_step i d)\<lparr>paths := [?cur']\<rparr>))"
    using assms(2,3) an by (simp add: frame_def Let_def record_step_fields)
  show ?thesis
  proof (cases "remaining_paths d")
    case Nil
    then show ?thesis
      using False fr assms(1) an
      by (simp add: handle_sequential_def Let_def record_step_fields)
  next
    case (Cons r rs)
    then show ?thesis
      using False fr assms(1) an
      by (simp add: handle_sequential_def Let_def record_step_fields restart_def)
  qed
qed

lemma filter_complete:
  "list_all (\<lambda>p. state p = Complete) ps \<Longrightarrow> filter (\<lambda>p. state p = Animating) ps = []"
  by (induction ps) simp_all

lemma filter_animating:
  "list_all (\<lambda>p. state p = Animating) ps \<Longrightarrow> filter (\<lambda>p. state p = Animating) ps = ps"
  by (induction ps) simp_all

lemma replayed_complete:
  "list_all2 (replayed s) ps qs \<Longrightarrow> list_all (\<lambda>p. state p = Complete) qs"
  by (induction rule: list_all2_induct) (simp_all add: replayed_def)

lemma replaying_count:
  assumes "replaying orig d" "list_all (\<lambda>p. state p = Complete) orig"
  shows "animating_count d = 1"
proof -
  from assms(1) obtain i where i: "i < length orig"
    and c: "list_all2 (replayed (animation_speed d)) (take i orig) (completed_paths d)"
    and p: "list_all2 (in_replay (animation_speed d)) [orig ! i] (paths d)"
    and r: "remaining_paths d = drop (Suc i) orig"
    by (auto simp add: replaying_def)
  from p obtain cur where cur: "paths d = [cur]" "in_replay (animation_speed d) (orig ! i) cur"
    by (auto simp add: list_all2_Cons1)
  have "state cur = Animating" using cur(2) by (auto simp add: in_replay_def)
  moreover have "list_all (\<lambda>p. state p = Complete) (completed_paths d)"
    using c by (rule replayed_complete)
  moreover have "list_all (\<lambda>p. state p = Complete) (remaining_paths d)"
    unfolding r using assms(2) by (auto simp add: list_all_iff dest: in_set_dropD)
  ultimately show ?thesis
    using cur(1) by (simp add: animating_count_def held_paths_def filter_complete)
qed

lemma replay_step:
  assumes "replay_inv orig d"
  shows "\<exists>d'. frame i d = Some d' \<and> animation_speed d' = animation_speed d
    \<and> (replay_done orig d'
       \<or> (replay_inv orig d' \<and> replay_measure d' + 1 \<le> replay_measure d
          \<and> length (completed_paths d) \<le> length (completed_paths d')))"
proof -
  let ?s = "animation_speed d"
  from assms have rep: "replaying orig d" by (simp add: replay_inv_def)
  then obtain k where k: "k < length orig"
    and comp: "list_all2 (replayed ?s) (take k orig) (completed_paths d)"
    and pl: "list_all2 (in_replay ?s) [orig ! k] (paths d)"
    and rem: "remaining_paths d = drop (Suc k) orig"
    by (auto simp add: replaying_def)
  from pl obtain cur where cur: "paths d = [cur]" and inr: "in_replay ?s (orig ! k) cur"
    by (auto simp add: list_all2_Cons1)
  from inr obtain n where n: "animate_n ?s n (restart (orig ! k)) = Some cur"
    and st: "state cur = Animating"
    by (auto simp add: in_replay_def)
  have all: "animating_all d" using rep by (simp add: replaying_def)
  have sizes: "list_all size_ok orig" and compl: "list_all (\<lambda>p. state p = Complete) orig"
    using assms by (simp_all add: replay_inv_def)
  have rp: "raw_points cur = raw_points (orig ! k)"
    using animate_n_keeps [OF n] by (simp add: restart_fields)
  have ok: "size_ok cur"
    using sizes k rp by (simp add: list_all_length size_ok_def)
  have t: "0 \<le> time cur" "time cur < 1"
    using assms cur by (simp_all add: replay_inv_def)
  have sp: "SPEED_MIN \<le> ?s" "?s \<le> SPEED_MAX"
    using assms by (simp_all add: replay_inv_def)
  have ne: "raw_points cur \<noteq> []" using ok by (auto simp add: size_ok_def)
  define t' where "t' = fadd (time cur) (increment ?s (length (raw_points cur)))"
  have inc: "1 / 2 ^ 44 \<le> increment ?s (length (raw_points cur))"
      "increment ?s (length (raw_points cur)) \<le> 1 / 2"
    using increment_bounds [of "length (raw_points cur)" ?s] ok sp
      SPEED_MIN_ge by (simp_all add: size_ok_def SPEED_MAX_def)
  have prog: "time cur + 1 / 2 ^ 45 \<le> t'"
    unfolding t'_def by (rule time_progress [OF t inc])
  from frame_step [OF all cur st ne t'_def, of i]
  obtain d' cur' where fr: "frame i d = Some d'"
    and sp': "animation_speed d' = ?s"
    and an: "animate ?s cur = Some cur'"
    and cases: "if t' < 1
        then paths d' = [cur'] \<and> state cur' = Animating \<and> time cur' = t'
          \<and> completed_paths d' = completed_paths d
          \<and> remaining_paths d' = remaining_paths d \<and> animating_all d'
        else state cur' = Complete
          \<and> (case remaining_paths d of
                r # rs \<Rightarrow>
                  paths d' = [restart r]
                  \<and> completed_paths d' = completed_paths d @ [cur']
                  \<and> remaining_paths d' = rs \<and> animating_all d'
              | [] \<Rightarrow>
                  paths d' = completed_paths d @ [cur'] \<and> completed_paths d' = []
                  \<and> remaining_paths d' = [] \<and> \<not> animating_all d')"
    by blast
  have n': "animate_n ?s (Suc n) (restart (orig ! k)) = Some cur'"
    using n an by (rule animate_n_snoc)
  show ?thesis
  proof (cases "t' < 1")
    case True
    with cases have d': "paths d' = [cur']" "state cur' = Animating" "time cur' = t'"
        "completed_paths d' = completed_paths d" "remaining_paths d' = remaining_paths d"
        "animating_all d'"
      by simp_all
    have "in_replay ?s (orig ! k) cur'"
      using n' d'(2) unfolding in_replay_def by blast
    then have "replaying orig d'"
      unfolding replaying_def using d' k comp rem sp' by auto
    moreover have "0 \<le> t'" using prog t(1) by simp
    ultimately have "replay_inv orig d'"
      using d' True sizes compl sp sp' by (simp add: replay_inv_def)
    moreover have "replay_measure d' + 1 \<le> replay_measure d"
      using prog by (simp add: replay_measure_def d' cur algebra_simps)
    ultimately show ?thesis using fr d'(4) sp' by auto
  next
    case False
    with cases have c': "state cur' = Complete" by simp
    have rc: "replayed ?s (orig ! k) cur'"
      using n' c' unfolding replayed_def by blast
    have tk: "take (Suc k) orig = take k orig @ [orig ! k]"
      using k by (rule take_Suc_conv_app_nth)
    have comp': "list_all2 (replayed ?s) (take (Suc k) orig) (completed_paths d @ [cur'])"
      unfolding tk using comp rc by (intro list_all2_appendI) simp_all
    show ?thesis
    proof (cases "remaining_paths d")
      case Nil
      with cases False have d': "paths d' = completed_paths d @ [cur']" "completed_paths d' = []"
          "remaining_paths d' = []" "\<not> animating_all d'"
        by simp_all
      from Nil rem k have "Suc k = length orig" by simp
      then have "take (Suc k) orig = orig" by simp
      with comp' have "list_all2 (replayed ?s) orig (paths d')" by (simp add: d')
      then have "replay_done orig d'"
        using d' sp' by (simp add: replay_done_def)
      with fr sp' show ?thesis by blast
    next
      case (Cons r rs)
      from cases False Cons have d': "paths d' = [restart r]"
          "completed_paths d' = completed_paths d @ [cur']" "remaining_paths d' = rs"
          "animating_all d'"
        by simp_all
      have k': "Suc k < length orig" using Cons rem by (cases "Suc k < length orig") simp_all
      from Cons_nth_drop_Suc [OF k'] Cons rem
      have r: "r = orig ! Suc k" and rs: "rs = drop (Suc (Suc k)) orig" by simp_all
      have "in_replay ?s (orig ! Suc k) (restart r)"
        unfolding in_replay_def r by (intro exI [of _ 0]) (simp add: restart_fields)
      then have "replaying orig d'"
        unfolding replaying_def using d' k' comp' rs sp' by auto
      then have "replay_inv orig d'"
        using d' sizes compl sp sp' by (simp add: replay_inv_def restart_fields)
      moreover have "replay_measure d' + 1 \<le> replay_measure d"
        using t(2) by (simp add: replay_measure_def d' cur Cons algebra_simps restart_fields)
      ultimately show ?thesis using fr d'(2) sp' by auto
    qed
  qed
qed

lemma replay_runs:
  assumes "replay_inv orig d" "replay_measure d \<le> of_nat k"
  shows "\<exists>T. 0 < T
    \<and> (\<forall>n<T. \<exists>d'. frames inp n d = Some d' \<and> replaying orig d'
          \<and> animation_speed d' = animation_speed d
          \<and> (\<forall>m\<le>n. \<exists>d''. frames inp m d = Some d''
                \<and> length (completed_paths d'') \<le> length (completed_paths d')))
    \<and> (\<exists>d'. frames inp T d = Some d' \<and> replay_done orig d'
          \<and> animation_speed d' = animation_speed d)"
  using assms
proof (induction k arbitrary: d inp)
  case 0
  have "time (hd (paths d)) < 1" using "0.prems"(1) by (simp add: replay_inv_def)
  then have "0 < (1 - time (hd (paths d))) * 2 ^ 45" by simp
  moreover have "0 \<le> (of_nat (length (remaining_paths d)) :: rat) * (2 ^ 45 + 1)" by simp
  ultimately have "0 < replay_measure d" unfolding replay_measure_def by linarith
  with "0.prems"(2) show ?case by simp
next
  case (Suc k)
  have rep: "replaying orig d" using Suc.prems(1) by (simp add: replay_inv_def)
  from replay_step [OF Suc.prems(1), of "inp 0"]
  obtain d1 where fr: "frame (inp 0) d = Some d1"
    and sp1: "animation_speed d1 = animation_speed d"
    and alt: "replay_done orig d1
       \<or> (replay_inv orig d1 \<and> replay_measure d1 + 1 \<le> replay_measure d
          \<and> length (completed_paths d) \<le> length (completed_paths d1))"
    by blast
  show ?case
  proof (cases "replay_done orig d1")
    case True
    have "frames inp (Suc 0) d = Some d1" using fr by simp
    with True rep sp1 show ?thesis
      by (intro exI [of _ "Suc 0"]) auto
  next
    case False
    with alt have inv1: "replay_inv orig d1" and me: "replay_measure d1 + 1 \<le> replay_measure d"
      and mono: "length (completed_paths d) \<le> length (completed_paths d1)"
      by simp_all
    have "replay_measure d1 \<le> of_nat k" using me Suc.prems(2) by simp
    from Suc.IH [OF inv1 this, of "\<lambda>i. inp (Suc i)"]
    obtain T where T: "0 < T"
      and run: "\<forall>n<T. \<exists>d'. frames (\<lambda>i. inp (Suc i)) n d1 = Some d' \<and> replaying orig d'
          \<and> animation_speed d' = animation_speed d1
          \<and> (\<forall>m\<le>n. \<exists>d''. frames (\<lambda>i. inp (Suc i)) m d1 = Some d''
                \<and> length (completed_paths d'') \<le> length (completed_paths d'))"
      and fin: "\<exists>d'. frames (\<lambda>i. inp (Suc i)) T d1 = Some d' \<and> replay_done orig d'
          \<and> animation_speed d' = animation_speed d1"
      by blast
    have shift: "frames inp (Suc n) d = frames (\<lambda>i. inp (Suc i)) n d1" for n
      using fr by simp
    have "\<exists>d'. frames inp n d = Some d' \<and> replaying orig d'
          \<and> animation_speed d' = animation_speed d
          \<and> (\<forall>m\<le>n. \<exists>d''. frames inp m d = Some d''
                \<and> length (completed_paths d'') \<le> length (completed_paths d'))"
      if n: "n < Suc T" for n
    proof (cases n)
      case 0
      then show ?thesis using rep by simp
    next
      case (Suc n')
      with n have "n' < T" by simp
      with run obtain d' where d': "frames (\<lambda>i. inp (Suc i)) n' d1 = Some d'" "replaying orig d'"
          "animation_speed d' = animation_speed d1"
        and le: "\<forall>m\<le>n'. \<exists>d''. frames (\<lambda>i. inp (Suc i)) m d1 = Some d''
                \<and> length (completed_paths d'') \<le> length (completed_paths d')"
        by blast
      from le have "length (completed_paths d1) \<le> length (completed_paths d')"
        by (metis frames.simps(1) le0 option.inject)
      with mono have z: "length (completed_paths d) \<le> length (completed_paths d')" by simp
      have "\<exists>d''. frames inp m d = Some d''
                \<and> length (completed_paths d'') \<le> length (completed_paths d')"
        if m: "m \<le> Suc n'" for m
      proof (cases m)
        case 0
        then show ?thesis using z by simp
      next
        case (Suc m')
        with m have "m' \<le> n'" by simp
        with le show ?thesis unfolding Suc shift by blast
      qed
      then show ?thesis unfolding Suc shift using d' sp1 by auto
    qed
    moreover have "\<exists>d'. frames inp (Suc T) d = Some d' \<and> replay_done orig d'
          \<and> animation_speed d' = animation_speed d"
      unfolding shift using fin sp1 by simp
    ultimately show ?thesis
      by (intro exI [of _ "Suc T"]) blast
  qed
qed

lemma replay_all_inv:
  assumes "paths d \<noteq> []" "list_all (\<lambda>p. state p = Complete) (paths d)"
    "list_all size_ok (paths d)"
    "SPEED_MIN \<le> animation_speed d" "animation_speed d \<le> SPEED_MAX"
  shows "replay_inv (paths d) (replay_all d)" and "animation_speed (replay_all d) = animation_speed d"
proof -
  obtain p ps where ps: "paths d = p # ps" using assms(1) by (cases "paths d") simp_all
  have "in_replay (animation_speed d) p (restart p)"
    unfolding in_replay_def by (intro exI [of _ 0]) (simp add: restart_fields)
  then show "replay_inv (paths d) (replay_all d)"
    using assms(2-5)
    by (simp add: ps replay_all_def replay_inv_def replaying_def restart_def [symmetric]
        restart_fields)
  show "animation_speed (replay_all d) = animation_speed d"
    by (simp add: ps replay_all_def)
qed

text \<open>
  Claim C6, amended. Take an orchestrator whose path collection holds \<open>k \<ge> 1\<close> completed
  paths and whose completed collection is empty (each path a stored stroke, the speed within
  its clamp range), invoke replay-all and let frames pass without further events, whatever
  the mouse does. Then the replay ends after some number \<open>T > 0\<close> of frames. Before that,
  after the handler and after every frame, the replay is under way at some path \<open>i\<close>: the
  paths before it have been replayed to their end, each restarted at time 0 with an empty
  trace and animated until complete, and stand in the completed collection; path \<open>i\<close>,
  restarted in the same way, is animating and is the only animating path; the paths after it
  wait in the queue, untouched. The number of replayed paths never decreases, so each path
  finishes before the next one begins. After frame \<open>T\<close> the path collection holds all \<open>k\<close>
  paths, each replayed to its end, in their original order, and the completed collection
  and the queue are empty.
\<close>

theorem replay_all_sequential:
  assumes "paths d \<noteq> []" "completed_paths d = []"
    "list_all (\<lambda>p. state p = Complete) (paths d)"
    "list_all size_ok (paths d)"
    "SPEED_MIN \<le> animation_speed d" "animation_speed d \<le> SPEED_MAX"
  shows "\<exists>T. 0 < T
    \<and> (\<forall>n<T. \<exists>d'. frames inp n (replay_all d) = Some d' \<and> replaying (paths d) d'
          \<and> animation_speed d' = animation_speed d \<and> animating_count d' = 1
          \<and> (\<forall>m\<le>n. \<exists>d''. frames inp m (replay_all d) = Some d''
                \<and> length (completed_paths d'') \<le> length (completed_paths d')))
    \<and> (\<exists>d'. frames inp T (replay_all d) = Some d' \<and> replay_done (paths d) d'
          \<and> animation_speed d' = animation_speed d)"
proof -
  note inv = replay_all_inv [OF assms(1,3,4,5,6)]
  obtain k where "replay_measure (replay_all d) \<le> of_nat k"
    using real_arch_simple by blast
  from replay_runs [OF inv(1) this, of inp]
  obtain T where T: "0 < T"
    and run: "\<forall>n<T. \<exists>d'. frames inp n (replay_all d) = Some d' \<and> replaying (paths d) d'
          \<and> animation_speed d' = animation_speed (replay_all d)
          \<and> (\<forall>m\<le>n. \<exists>d''. frames inp m (replay_all d) = Some d''
                \<and> length (completed_paths d'') \<le> length (completed_paths d'))"
    and fin: "\<exists>d'. frames inp T (replay_all d) = Some d' \<and> replay_done (paths d) d'
          \<and> animation_speed d' = animation_speed (replay_all d)"
    by blast
  from run have "\<forall>n<T. \<exists>d'. frames inp n (replay_all d) = Some d' \<and> replaying (paths d) d'
          \<and> animation_speed d' = animation_speed d \<and> animating_count d' = 1
          \<and> (\<forall>m\<le>n. \<exists>d''. frames inp m (replay_all d) = Some d''
                \<and> length (completed_paths d'') \<le> length (completed_paths d'))"
    using replaying_count assms(3) inv(2) by (metis (no_types, lifting))
  with T fin inv(2) show ?thesis by (metis (no_types, lifting))
qed


theorem replay_all_sequential_witness:
  "paths three_completed \<noteq> [] \<and> completed_paths three_completed = []
   \<and> list_all (\<lambda>p. state p = Complete) (paths three_completed)
   \<and> list_all size_ok (paths three_completed)
   \<and> SPEED_MIN \<le> animation_speed three_completed
   \<and> animation_speed three_completed \<le> SPEED_MAX
   \<and> (\<exists>T d'. frames no_input T (replay_all three_completed) = Some d'
         \<and> replay_done (paths three_completed) d')"
proof -
  have h1: "paths three_completed \<noteq> []" and h0: "completed_paths three_completed = []"
    and h2: "list_all (\<lambda>p. state p = Complete) (paths three_completed)"
    by (simp_all add: three_completed_def completed_stroke_fields FourierDrawing_init_def)
  have h3: "list_all size_ok (paths three_completed)"
    by (simp add: three_completed_def size_ok_def completed_stroke_fields)
  have h4: "SPEED_MIN \<le> animation_speed three_completed"
    and h5: "animation_speed three_completed \<le> SPEED_MAX"
    using SPEED_MIN_le_MAX
    by (simp_all add: three_completed_def FourierDrawing_init_def DEFAULT_SPEED_def SPEED_MAX_def)
  from replay_all_sequential [OF h1 h0 h2 h3 h4 h5, of no_input]
  have "\<exists>T d'. frames no_input T (replay_all three_completed) = Some d'
         \<and> replay_done (paths three_completed) d'"
    by blast
  with h1 h0 h2 h3 h4 h5 show ?thesis by blast
qed


lemma two_frames:
  assumes "animating_all d" "paths d = [cur]" "state cur = Animating"
    "length (raw_points cur) = 2" "time cur = 0" "animation_speed d = 1"
  shows "\<exists>d2 c2. frames inp 2 d = Some d2 \<and> state c2 = Complete
    \<and> (case remaining_paths d of
          r # rs \<Rightarrow>
            paths d2 = [restart r] \<and> completed_paths d2 = completed_paths d @ [c2]
            \<and> remaining_paths d2 = rs \<and> animating_all d2
        | [] \<Rightarrow>
            paths d2 = completed_paths d @ [c2] \<and> completed_paths d2 = []
            \<and> remaining_paths d2 = [] \<and> \<not> animating_all d2)"
proof -
  have ne: "raw_points cur \<noteq> []" using assms(4) by auto
  have t1: "1 / 2 = fadd (time cur) (increment (animation_speed d) (length (raw_points cur)))"
    by (simp add: assms increment_two half_steps)
  from frame_step [OF assms(1,2,3) ne t1, of "inp 0"]
  obtain d1 c1 where d1: "frame (inp 0) d = Some d1" "animation_speed d1 = 1"
      "animate (animation_speed d) cur = Some c1" "paths d1 = [c1]" "state c1 = Animating"
      "time c1 = 1 / 2" "completed_paths d1 = completed_paths d"
      "remaining_paths d1 = remaining_paths d" "animating_all d1"
    using assms(6) by auto
  have len1: "length (raw_points c1) = 2"
    using animate_keeps [OF d1(3)] assms(4) by simp
  then have ne1: "raw_points c1 \<noteq> []" by auto
  have t2: "1 = fadd (time c1) (increment (animation_speed d1) (length (raw_points c1)))"
    by (simp add: d1 len1 increment_two half_steps)
  from frame_step [OF d1(9,4,5) ne1 t2, of "inp 1"]
  obtain d2 c2 where d2: "frame (inp 1) d1 = Some d2" "state c2 = Complete"
      "case remaining_paths d1 of
          r # rs \<Rightarrow>
            paths d2 = [restart r] \<and> completed_paths d2 = completed_paths d1 @ [c2]
            \<and> remaining_paths d2 = rs \<and> animating_all d2
        | [] \<Rightarrow>
            paths d2 = completed_paths d1 @ [c2] \<and> completed_paths d2 = []
            \<and> remaining_paths d2 = [] \<and> \<not> animating_all d2"
    by auto
  have "frames inp 2 d = Some d2"
    using d1(1) d2(1) by (simp add: numeral_2_eq_2)
  with d2(2,3) show ?thesis unfolding d1(7,8) by blast
qed

lemma replay_all_three:
  "animating_all (replay_all three_completed)"
  "paths (replay_all three_completed) = [restart (completed_stroke (410, 300) (390, 300))]"
  "completed_paths (replay_all three_completed) = []"
  "remaining_paths (replay_all three_completed) =
     [completed_stroke (400, 310) (400, 290), completed_stroke (420, 320) (380, 280)]"
  "animation_speed (replay_all three_completed) = 1"
  by (simp_all add: replay_all_def three_completed_def FourierDrawing_init_def restart_def
      DEFAULT_SPEED_def)

lemma replay_all_one:
  "animating_all (replay_all one_completed)"
  "paths (replay_all one_completed) = [restart (completed_stroke (410, 300) (390, 300))]"
  "completed_paths (replay_all one_completed) = []"
  "remaining_paths (replay_all one_completed) = []"
  "animation_speed (replay_all one_completed) = 1"
  by (simp_all add: replay_all_def one_completed_def FourierDrawing_init_def restart_def
      DEFAULT_SPEED_def)

text \<open>
  Claim C6 as stated fails. First, a skip during a replay leaves the paths already replayed
  in the completed collection: after two frames of the replay of three strokes and a skip,
  the orchestrator holds three completed paths, and replay-all then keeps two of them and
  drops the third. Second, when a replay has run to its end, here after two frames for one
  stroke, the completed collection is empty: the path is in the path collection.
\<close>

theorem replay_all_loses_paths:
  "map_option (held_states \<circ> complete_all_animations)
       (frames no_input 2 (replay_all three_completed)) = Some [Complete, Complete, Complete]
   \<and> map_option (length \<circ> held_paths \<circ> replay_all \<circ> complete_all_animations)
       (frames no_input 2 (replay_all three_completed)) = Some 2
   \<and> map_option completed_paths (frames no_input 2 (replay_all one_completed)) = Some []
   \<and> map_option held_states (frames no_input 2 (replay_all one_completed)) = Some [Complete]"
proof -
  let ?A = "restart (completed_stroke (410, 300) (390, 300))"
  let ?B = "completed_stroke (400, 310) (400, 290)"
  let ?C = "completed_stroke (420, 320) (380, 280)"
  have A: "state ?A = Animating" "length (raw_points ?A) = 2" "time ?A = 0"
    by (simp_all add: restart_fields completed_stroke_fields)
  from two_frames [OF replay_all_three(1,2) A replay_all_three(5), of no_input]
  obtain d2 c2 where d2: "frames no_input 2 (replay_all three_completed) = Some d2"
      "state c2 = Complete" "paths d2 = [restart ?B]" "completed_paths d2 = [c2]"
      "remaining_paths d2 = [?C]" "animating_all d2"
    by (auto simp add: replay_all_three)
  have skip: "paths (complete_all_animations d2) = [(restart ?B)\<lparr>state := Complete\<rparr>, ?C]"
      "completed_paths (complete_all_animations d2) = [c2]"
      "remaining_paths (complete_all_animations d2) = []"
    using d2 by (simp_all add: complete_all_animations_def Let_def complete_animation_def
        restart_fields completed_stroke_fields)
  have 1: "held_states (complete_all_animations d2) = [Complete, Complete, Complete]"
    using d2(2) by (simp add: held_states_def held_paths_def skip completed_stroke_fields)
  have 2: "length (held_paths (replay_all (complete_all_animations d2))) = 2"
    by (simp add: held_paths_def replay_all_def skip)
  from two_frames [OF replay_all_one(1,2) A replay_all_one(5), of no_input]
  obtain e2 c where e2: "frames no_input 2 (replay_all one_completed) = Some e2"
      "state c = Complete" "paths e2 = [c]" "completed_paths e2 = []" "remaining_paths e2 = []"
    by (auto simp add: replay_all_one)
  have 3: "held_states e2 = [Complete]"
    using e2 by (simp add: held_states_def held_paths_def)
  show ?thesis
    using 1 2 3 e2(4) by (simp add: d2(1) e2(1))
qed


end
